theory Spec2Isabelle
  imports Main
begin

text \<open>
  A shallow embedding of the web client of the cloud drive, and of the size aggregator of
  its storage engine. A handler of the client becomes a function that returns the trace
  of its observable effects (requests, toasts, query invalidations, progress tasks,
  saved files) next to its result; the server is a parameter that answers each request.
  What the client takes from the JavaScript runtime (locale comparison, date parsing,
  URI decoding) is a parameter as well. The definitions come first, the properties
  after them.
\<close>

section \<open>Data model of the drive client\<close>

text \<open>
  The entry record the server sends (interface \<open>FileItem\<close>). Numbers that hold ids and
  byte counts are integers here; an optional field is an \<open>option\<close>. The field \<open>id\<close> of the
  source is called \<open>item_id\<close>, since \<open>id\<close> is the identity function of HOL.
\<close>

datatype file_type = File | Folder

record FileItem =
  item_id :: int
  name :: string
  path :: string
  file_type :: file_type
  size_bytes :: "int option"
  mime_type :: "string option"
  created_at :: string
  updated_at :: string
  can_read :: bool
  can_write :: bool
  can_delete :: bool
  is_owner :: bool

text \<open>Two entries used in examples: a folder and a text file inside it.\<close>

definition docs_folder :: FileItem where
  "docs_folder =
     \<lparr>item_id = 3, name = ''docs'', path = ''/docs'', file_type = Folder, size_bytes = None,
      mime_type = None, created_at = ''2024-05-01T10:00:00Z'',
      updated_at = ''2024-05-01T10:00:00Z'', can_read = True, can_write = True,
      can_delete = True, is_owner = True\<rparr>"

definition notes_file :: FileItem where
  "notes_file =
     \<lparr>item_id = 4, name = ''notes.txt'', path = ''/docs/notes.txt'', file_type = File,
      size_bytes = Some 100, mime_type = Some ''text/plain'',
      created_at = ''2024-05-02T09:30:00Z'', updated_at = ''2024-05-02T09:30:00Z'',
      can_read = True, can_write = True, can_delete = False, is_owner = False\<rparr>"

section \<open>Requests, server outcomes and the trace of effects\<close>

text \<open>
  One constructor per method of \<open>fileService\<close> and \<open>storageService\<close>: the HTTP request that
  method sends. An uploaded \<open>File\<close> object is represented by its name.
\<close>

datatype request =
    Req_listFiles string
  | Req_createFolder string string
  | Req_deleteFile int
  | Req_downloadFile int
  | Req_uploadFile string string
  | Req_batchDownload "int list"
  | Req_renameFile int string
  | Req_moveFile int string
  | Req_copyFile int string
  | Req_calculateSize "int list"
  | Req_getStorageInfo

text \<open>
  What a rejected request throws. \<open>AxiosError st m\<close> is an \<open>AxiosError\<close> whose
  \<open>response?.status\<close> is \<open>st\<close> and whose \<open>response?.data?.message\<close> is \<open>m\<close> (\<open>None\<close> for
  \<open>undefined\<close>: no response, no body or no such field); \<open>OtherError\<close> is any other thrown
  value.
\<close>

datatype api_error = AxiosError "nat option" "string option" | OtherError

text \<open>
  A request resolves with a response, of which the client reads the
  \<open>content-disposition\<close> header only, or it rejects.
\<close>

datatype outcome = Resolved "string option" | Rejected api_error

type_synonym server = "request \<Rightarrow> outcome"

datatype query_key = QK_files | QK_files_path string | QK_storage

datatype task_type = Upload | Download

datatype task_field =
    F_status string
  | F_progress nat
  | F_error string
  | F_fileName string

text \<open>
  The observable effects of a handler, in program order. A progress task is named by the
  position at which the handler created it (the source draws a fresh \<open>uuidv4()\<close>).
\<close>

datatype event =
    Request request
  | ToastSuccess string
  | ToastError string
  | ToastInfo string
  | Invalidate query_key
  | AddTask nat string task_type
  | UpdateTask nat "task_field list"
  | SaveAs string
  | ConsoleError string

text \<open>The message expression \<open>err.response?.data?.message\<close>.\<close>

fun response_message :: "api_error \<Rightarrow> string option" where
  "response_message (AxiosError st m) = m"
| "response_message OtherError = None"

text \<open>JavaScript \<open>a || b\<close> on an optional string: \<open>undefined\<close> and \<open>''\<close> are falsy.\<close>

fun js_or :: "string option \<Rightarrow> string \<Rightarrow> string" where
  "js_or None d = d"
| "js_or (Some s) d = (if s = [] then d else s)"

text \<open>
  \<open>Promise.all\<close> over requests that were all sent: it rejects when one of them rejects.
  The model reports the rejection of the first rejected request in list order (which one
  settles first in time is not modelled).
\<close>

fun first_rejection :: "outcome list \<Rightarrow> api_error option" where
  "first_rejection [] = None"
| "first_rejection (Resolved _ # os) = first_rejection os"
| "first_rejection (Rejected e # os) = Some e"

section \<open>The mutation hooks (hooks/mutations/useFileMutations.ts)\<close>

text \<open>
  \<open>useMutation\<close> with \<open>mutateAsync\<close>: the mutation function sends its requests; when all
  resolve, \<open>onSuccess\<close> runs and the promise resolves (\<open>True\<close>); otherwise \<open>onError\<close> runs,
  which in every hook of the file shows \<open>err.response?.data?.message || fallback\<close> as an
  error toast, and the promise rejects (\<open>False\<close>).
\<close>

definition useMutation ::
  "server \<Rightarrow> request list \<Rightarrow> event list \<Rightarrow> string \<Rightarrow> event list \<times> bool" where
  "useMutation srv reqs onSuccess fallback =
     (case first_rejection (map srv reqs) of
        None \<Rightarrow> (map Request reqs @ onSuccess, True)
      | Some err \<Rightarrow>
          (map Request reqs @ [ToastError (js_or (response_message err) fallback)], False))"

definition useCreateFolderMutation :: "server \<Rightarrow> string \<Rightarrow> string \<Rightarrow> event list \<times> bool" where
  "useCreateFolderMutation srv p n =
     useMutation srv [Req_createFolder p n]
       [ToastSuccess ''Folder created successfully'', Invalidate (QK_files_path p)]
       ''Failed to create folder''"

definition useDeleteFileMutation :: "server \<Rightarrow> int \<Rightarrow> event list \<times> bool" where
  "useDeleteFileMutation srv fileId =
     useMutation srv [Req_deleteFile fileId]
       [ToastSuccess ''File deleted successfully'', Invalidate QK_files, Invalidate QK_storage]
       ''Failed to delete file''"

definition useBatchDeleteMutation :: "server \<Rightarrow> int list \<Rightarrow> event list \<times> bool" where
  "useBatchDeleteMutation srv fileIds =
     useMutation srv (map Req_deleteFile fileIds)
       [ToastSuccess ''Files deleted successfully'', Invalidate QK_files, Invalidate QK_storage]
       ''Failed to delete files''"

definition useRenameFileMutation :: "server \<Rightarrow> int \<Rightarrow> string \<Rightarrow> event list \<times> bool" where
  "useRenameFileMutation srv fileId newName =
     useMutation srv [Req_renameFile fileId newName]
       [ToastSuccess ''File renamed successfully'', Invalidate QK_files]
       ''Failed to rename file''"

definition useMoveFileMutation :: "server \<Rightarrow> int \<Rightarrow> string \<Rightarrow> event list \<times> bool" where
  "useMoveFileMutation srv fileId destinationPath =
     useMutation srv [Req_moveFile fileId destinationPath]
       [ToastSuccess ''File moved successfully'', Invalidate QK_files]
       ''Failed to move file''"

definition useCopyFileMutation :: "server \<Rightarrow> int \<Rightarrow> string \<Rightarrow> event list \<times> bool" where
  "useCopyFileMutation srv fileId destinationPath =
     useMutation srv [Req_copyFile fileId destinationPath]
       [ToastSuccess ''File copied successfully'', Invalidate QK_files, Invalidate QK_storage]
       ''Failed to copy file''"

section \<open>The operations hook built on the mutations (hooks/useFileOperations.ts, lines 20-268)\<close>

text \<open>
  Each operation awaits its mutation inside \<open>try\<close> and returns \<open>true\<close>; the \<open>catch\<close> returns
  \<open>false\<close>. The pair is the trace of effects and the returned boolean.
\<close>

definition createFolder :: "server \<Rightarrow> string \<Rightarrow> string \<Rightarrow> event list \<times> bool" where
  "createFolder srv currentPath n = useCreateFolderMutation srv currentPath n"

definition renameFile :: "server \<Rightarrow> int \<Rightarrow> string \<Rightarrow> event list \<times> bool" where
  "renameFile srv fileId newName = useRenameFileMutation srv fileId newName"

definition moveFile :: "server \<Rightarrow> int \<Rightarrow> string \<Rightarrow> event list \<times> bool" where
  "moveFile srv fileId destinationPath = useMoveFileMutation srv fileId destinationPath"

definition copyFile :: "server \<Rightarrow> int \<Rightarrow> string \<Rightarrow> event list \<times> bool" where
  "copyFile srv fileId destinationPath = useCopyFileMutation srv fileId destinationPath"

definition deleteFile :: "server \<Rightarrow> int \<Rightarrow> event list \<times> bool" where
  "deleteFile srv fileId = useDeleteFileMutation srv fileId"

definition batchDeleteFiles :: "server \<Rightarrow> int list \<Rightarrow> event list \<times> bool" where
  "batchDeleteFiles srv fileIds = useBatchDeleteMutation srv fileIds"




text \<open>
  \<open>batchDownloadFiles\<close> (lines 146-244). The pieces of JavaScript it relies on:
  the decimal digits of a number in a template literal, \<open>endsWith\<close>, and the two regular
  expressions that read a file name from the \<open>content-disposition\<close> header.
\<close>

fun show_nat :: "nat \<Rightarrow> string" where
  "show_nat n =
     (if n < 10 then [char_of (48 + n)]
      else show_nat (n div 10) @ [char_of (48 + n mod 10)])"

declare show_nat.simps [simp del]

definition endsWith :: "string \<Rightarrow> string \<Rightarrow> bool" where
  "endsWith s suf \<longleftrightarrow> length suf \<le> length s \<and> drop (length s - length suf) s = suf"

text \<open>
  Matching under the flag \<open>i\<close>: for a pattern of ASCII characters, a code unit matches a
  pattern letter when both have the same ASCII upper case.
\<close>

definition upper_ascii :: "char \<Rightarrow> char" where
  "upper_ascii c =
     (if (97::nat) \<le> of_char c \<and> of_char c \<le> (122::nat)
      then char_of (of_char c - (32::nat)) else c)"

fun matches_ci :: "string \<Rightarrow> string \<Rightarrow> bool" where
  "matches_ci [] s = True"
| "matches_ci (p # ps) [] = False"
| "matches_ci (p # ps) (c # cs) = (upper_ascii p = upper_ascii c \<and> matches_ci ps cs)"

text \<open>
  \<open>after_first_ci lit s\<close>: what follows the leftmost occurrence of the literal \<open>lit\<close> in
  \<open>s\<close>, or \<open>None\<close> when there is none.
\<close>

fun after_first_ci :: "string \<Rightarrow> string \<Rightarrow> string option" where
  "after_first_ci lit [] = (if lit = [] then Some [] else None)"
| "after_first_ci lit (c # cs) =
     (if matches_ci lit (c # cs) then Some (drop (length lit) (c # cs))
      else after_first_ci lit cs)"

text \<open>
  \<open>/filename\*=UTF-8''([^;\r\n]*)/i\<close>: the capture group of the leftmost match, if the
  pattern matches at all.
\<close>

definition filenameStarMatch :: "string \<Rightarrow> string option" where
  "filenameStarMatch cd =
     map_option (takeWhile (\<lambda>c. c \<notin> {CHR '';'', CHR 0x0D, CHR 0x0A}))
       (after_first_ci (''filename*=UTF-8'' @ [CHR 0x27, CHR 0x27]) cd)"

text \<open>
  \<open>/filename=['"]?([^;\r\n"']*)['"]?/i\<close>: after the literal an optional quote is consumed,
  then the capture group takes every character up to a semicolon, a line break or a
  quote.
\<close>

definition filenameMatch :: "string \<Rightarrow> string option" where
  "filenameMatch cd =
     map_option
       (\<lambda>rest. takeWhile (\<lambda>c. c \<notin> {CHR '';'', CHR 0x0D, CHR 0x0A, CHR 0x22, CHR 0x27})
          (case rest of
             [] \<Rightarrow> []
           | c # cs \<Rightarrow> if c = CHR 0x27 \<or> c = CHR 0x22 then cs else c # cs))
       (after_first_ci ''filename='' cd)"

text \<open>
  The name taken from the header, starting from \<open>fileName\<close>. \<open>decodeURIComponent\<close> is
  the runtime's function, a parameter here; it yields \<open>None\<close> where it throws a
  \<open>URIError\<close>, and so does the whole computation.
\<close>

definition header_filename ::
  "(string \<Rightarrow> string option) \<Rightarrow> string \<Rightarrow> string option \<Rightarrow> string option" where
  "header_filename decodeURIComponent fileName contentDisposition =
     (let plain = (\<lambda>cd. case filenameMatch cd of
                           Some c \<Rightarrow> if c \<noteq> [] then c else fileName
                         | None \<Rightarrow> fileName)
      in case contentDisposition of
           None \<Rightarrow> Some fileName
         | Some cd \<Rightarrow>
             if cd = [] then Some fileName
             else (case filenameStarMatch cd of
                     Some c \<Rightarrow> if c \<noteq> [] then decodeURIComponent c else Some (plain cd)
                   | None \<Rightarrow> Some (plain cd)))"

text \<open>
  The download itself. \<open>files\<close> is the current listing. \<open>failure_text\<close> stands for the
  text the \<open>catch\<close> block derives from an \<open>AxiosError\<close> (lines 225-237: the blob body parsed
  as JSON, the status text or the error's own message); any other thrown value gives
  \<open>'Unknown error'\<close>. The progress callbacks of a running download are not part of the
  trace. \<open>SaveAs n\<close> is the click on the link whose \<open>download\<close> attribute is \<open>n\<close>.
\<close>

definition batchDownloadFiles ::
  "server \<Rightarrow> (string \<Rightarrow> string option) \<Rightarrow> (api_error \<Rightarrow> string) \<Rightarrow> FileItem list \<Rightarrow> int list
     \<Rightarrow> event list \<times> bool option" where
  "batchDownloadFiles srv decodeURIComponent failure_text files fileIds =
     (if fileIds = [] then ([], None)
      else
        let isSingleFile = (length fileIds = 1);
            found = (if isSingleFile then find (\<lambda>f. item_id f = hd fileIds) files else None);
            fileType = (case found of Some f \<Rightarrow> file_type f | None \<Rightarrow> File);
            fileName =
              (if isSingleFile then (case found of Some f \<Rightarrow> name f | None \<Rightarrow> ''download'')
               else ''batch_download_'' @ show_nat (length fileIds) @ ''_files.zip'');
            direct = (isSingleFile \<and> fileType = File);
            req = (if direct then Req_downloadFile (hd fileIds) else Req_batchDownload fileIds);
            started =
              [AddTask 0 fileName Download, UpdateTask 0 [F_status ''active''], Request req] @
              (if direct then []
               else (case srv req of Resolved _ \<Rightarrow> [UpdateTask 0 [F_progress 50]] | Rejected _ \<Rightarrow> []));
            failed = (\<lambda>message.
              (started @
               [ConsoleError ''Download failed'',
                UpdateTask 0 [F_status ''error'', F_error message],
                ToastError (''Download failed: '' @ message)], Some False))
        in (case srv req of
              Rejected err \<Rightarrow>
                failed (case err of
                          AxiosError st m \<Rightarrow> failure_text err
                        | OtherError \<Rightarrow> ''Unknown error'')
            | Resolved contentDisposition \<Rightarrow>
                (case header_filename decodeURIComponent fileName contentDisposition of
                   None \<Rightarrow> failed ''Unknown error''
                 | Some headerName \<Rightarrow>
                     let downloadFilename =
                          (if (\<not> isSingleFile \<or> fileType = Folder) \<and> \<not> endsWith headerName ''.zip''
                           then headerName @ ''.zip'' else headerName)
                     in (started @
                         [UpdateTask 0 [F_fileName downloadFilename],
                          SaveAs downloadFilename,
                          UpdateTask 0 [F_status ''completed'', F_progress 100]], Some True))))"

definition requests_of :: "event list \<Rightarrow> request list" where
  "requests_of tr = concat (map (\<lambda>e. case e of Request r \<Rightarrow> [r] | _ \<Rightarrow> []) tr)"

section \<open>The operations hook calling the services directly (hooks/useFileOperations.ts, lines 279-574)\<close>

text \<open>
  The same file holds a second \<open>useFileOperations\<close>, which keeps the listing in component
  state and calls \<open>fileService\<close> itself. Its operations carry the suffix \<open>_fs\<close> here. They
  take the whole \<open>FileItem\<close> where the hook above takes an id.

  Strings are lists of 8-bit code units. \<open>String.prototype.trim\<close> removes white space and
  line terminators from both ends; of these, the code units below 256 are TAB, LF, VT, FF,
  CR, SPACE and NBSP.
\<close>

definition is_js_space :: "char \<Rightarrow> bool" where
  "is_js_space c \<longleftrightarrow>
     c \<in> {CHR 0x09, CHR 0x0A, CHR 0x0B, CHR 0x0C, CHR 0x0D, CHR 0x20, CHR 0xA0}"

definition trim :: "string \<Rightarrow> string" where
  "trim s = rev (dropWhile is_js_space (rev (dropWhile is_js_space s)))"

text \<open>
  \<open>fetchFiles(path)\<close> is started and not awaited: it requests the listing and, when that
  fails, logs the error and shows a toast unless the status is 401. What a successful
  answer leads to (the new listing in the state, a corrected path in the URL) is not part
  of the trace.
\<close>

definition fetchFiles_fs :: "server \<Rightarrow> string \<Rightarrow> event list" where
  "fetchFiles_fs srv p =
     Request (Req_listFiles p) #
     (case srv (Req_listFiles p) of
        Resolved _ \<Rightarrow> []
      | Rejected (AxiosError st m) \<Rightarrow>
          (if st = Some 401
           then [ConsoleError ''Failed to fetch files'', ConsoleError ''Authentication failed'']
           else [ConsoleError ''Failed to fetch files'', ToastError ''Failed to load files''])
      | Rejected OtherError \<Rightarrow>
          [ConsoleError ''Failed to fetch files'', ToastError ''Failed to load files''])"

text \<open>
  The message of a caught error:
  \<open>error instanceof AxiosError ? error.response?.data?.message : 'Unknown error'\<close>,
  then \<open>message || 'Unknown error'\<close>.
\<close>

definition caught_message :: "api_error \<Rightarrow> string" where
  "caught_message err =
     (case err of
        AxiosError st m \<Rightarrow> js_or m ''Unknown error''
      | OtherError \<Rightarrow> ''Unknown error'')"

text \<open>
  \<open>createFolder\<close> returns \<open>undefined\<close> (\<open>None\<close>) without any effect when \<open>name.trim()\<close> is
  empty; \<open>renameFile\<close> returns \<open>false\<close> in that case.
\<close>

definition createFolder_fs :: "server \<Rightarrow> string \<Rightarrow> string \<Rightarrow> event list \<times> bool option" where
  "createFolder_fs srv currentPath n =
     (if trim n = [] then ([], None)
      else
        (case srv (Req_createFolder currentPath n) of
           Resolved _ \<Rightarrow>
             (Request (Req_createFolder currentPath n) #
              ToastSuccess ''Folder created successfully'' #
              fetchFiles_fs srv currentPath, Some True)
         | Rejected err \<Rightarrow>
             ([Request (Req_createFolder currentPath n),
               ConsoleError ''Failed to create folder'',
               ToastError (''Failed to create folder: '' @ caught_message err)], Some False)))"

definition renameFile_fs :: "server \<Rightarrow> string \<Rightarrow> FileItem \<Rightarrow> string \<Rightarrow> event list \<times> bool" where
  "renameFile_fs srv currentPath f newName =
     (if trim newName = [] then ([], False)
      else
        (case srv (Req_renameFile (item_id f) newName) of
           Resolved _ \<Rightarrow>
             (Request (Req_renameFile (item_id f) newName) #
              ToastSuccess ''File renamed successfully'' #
              fetchFiles_fs srv currentPath, True)
         | Rejected err \<Rightarrow>
             ([Request (Req_renameFile (item_id f) newName),
               ConsoleError ''Failed to rename'',
               ToastError (''Rename failed: '' @ caught_message err)], False)))"

section \<open>The destination selector (components/dashboard/FileSelectorModal.tsx)\<close>

definition startsWith :: "string \<Rightarrow> string \<Rightarrow> bool" where
  "startsWith s p \<longleftrightarrow> take (length p) s = p"

text \<open>
  \<open>excludePath\<close> is an optional property; \<open>excludePath && \<dots>\<close> is false for \<open>undefined\<close>
  and for the empty string. \<open>isExcluded\<close> decides which folders of the list can be clicked.
\<close>

definition isExcluded :: "string option \<Rightarrow> FileItem \<Rightarrow> bool" where
  "isExcluded excludePath folder \<longleftrightarrow>
     (case excludePath of
        None \<Rightarrow> False
      | Some q \<Rightarrow> q \<noteq> [] \<and> (path folder = q \<or> startsWith (path folder) (q @ ''/'')))"

text \<open>
  \<open>handleBack\<close>: the new current path, \<open>None\<close> when the handler returns at the root.
  \<open>lastIndexOf\<close> yields -1 when there is no separator, and \<open>substring(0, -1)\<close> is empty.
\<close>

fun lastIndexOf :: "string \<Rightarrow> char \<Rightarrow> int" where
  "lastIndexOf [] c = -1"
| "lastIndexOf (x # xs) c =
     (let r = lastIndexOf xs c in if r \<ge> 0 then r + 1 else if x = c then 0 else -1)"

definition handleBack :: "string \<Rightarrow> string option" where
  "handleBack currentPath =
     (if currentPath = ''/'' then None
      else Some (js_or (Some (take (nat (lastIndexOf currentPath CHR ''/'')) currentPath)) ''/''))"

text \<open>
  \<open>handleConfirm\<close>: the path handed to \<open>onSelect\<close>, \<open>None\<close> when the handler returns
  without calling it.
\<close>

definition handleConfirm :: "string option \<Rightarrow> string option \<Rightarrow> string \<Rightarrow> string option" where
  "handleConfirm excludePath selectedPath currentPath =
     (let targetPath = js_or selectedPath currentPath
      in if (case excludePath of None \<Rightarrow> False | Some q \<Rightarrow> q \<noteq> [] \<and> startsWith targetPath q)
         then None
         else Some targetPath)"

text \<open>
  The move dialog of the dashboard (DashboardModals.tsx lines 171-178 and \<open>handleMove\<close> of
  the dashboard page): the selector excludes the path of the moved item when it is a
  folder, and \<open>onSelect\<close> is \<open>handleMove\<close>, which sends the move request.
\<close>

definition move_excludePath :: "FileItem option \<Rightarrow> string option" where
  "move_excludePath itemToMove =
     (case itemToMove of
        None \<Rightarrow> None
      | Some it \<Rightarrow> if file_type it = Folder then Some (path it) else None)"

definition handleMove :: "server \<Rightarrow> FileItem option \<Rightarrow> string \<Rightarrow> event list" where
  "handleMove srv itemToMove destinationPath =
     (case itemToMove of
        None \<Rightarrow> []
      | Some it \<Rightarrow> fst (moveFile srv (item_id it) destinationPath))"

definition confirm_move :: "server \<Rightarrow> FileItem option \<Rightarrow> string option \<Rightarrow> string \<Rightarrow> event list" where
  "confirm_move srv itemToMove selectedPath currentPath =
     (case handleConfirm (move_excludePath itemToMove) selectedPath currentPath of
        None \<Rightarrow> []
      | Some targetPath \<Rightarrow> handleMove srv itemToMove targetPath)"

section \<open>Deleting from the dashboard page\<close>

text \<open>
  The state the delete handlers of the dashboard page read and write: the selection (a
  \<open>Set\<close>, kept in insertion order) and the delete dialog of \<open>useDashboardModals\<close>. The page modelled is the one with batch delete, whose
  \<open>handleDelete\<close> stands at lines 249-260.
\<close>

record dashboard =
  selectedIds :: "int list"
  itemToDelete :: "FileItem option"
  showDeleteModal :: bool

text \<open>\<open>useSelection\<close>: \<open>handleSelect\<close> toggles an id, \<open>clearSelection\<close> empties the set.\<close>

definition handleSelect :: "int \<Rightarrow> bool \<Rightarrow> dashboard \<Rightarrow> dashboard" where
  "handleSelect i multi st =
     (let newSelected = (if multi then selectedIds st else [])
      in st\<lparr>selectedIds :=
              (if i \<in> set newSelected then removeAll i newSelected else newSelected @ [i])\<rparr>)"

definition clearSelection :: "dashboard \<Rightarrow> dashboard" where
  "clearSelection st = st\<lparr>selectedIds := []\<rparr>"

text \<open>
  \<open>openDeleteModal(file)\<close> stores its argument; the page also calls it without one,
  which stores \<open>undefined\<close>.
\<close>

definition openDeleteModal :: "FileItem option \<Rightarrow> dashboard \<Rightarrow> dashboard" where
  "openDeleteModal file st = st\<lparr>itemToDelete := file, showDeleteModal := True\<rparr>"

definition closeDeleteModal :: "dashboard \<Rightarrow> dashboard" where
  "closeDeleteModal st = st\<lparr>showDeleteModal := False, itemToDelete := None\<rparr>"

definition handleDelete :: "FileItem \<Rightarrow> dashboard \<Rightarrow> dashboard \<times> event list" where
  "handleDelete file st =
     (if \<not> can_delete file
      then (st, [ToastError (''You don'' @ [CHR 0x27] @ ''t have permission to delete this file'')])
      else if item_id file \<in> set (selectedIds st) \<and> length (selectedIds st) > 1
      then (openDeleteModal None st, [])
      else (openDeleteModal (Some file) st, []))"

text \<open>The \<open>onDelete\<close> handler the page gives to the action toolbar (lines 336-340).\<close>

definition toolbar_onDelete :: "dashboard \<Rightarrow> dashboard \<times> event list" where
  "toolbar_onDelete st =
     (if length (selectedIds st) > 0 then (openDeleteModal None st, []) else (st, []))"

definition confirmDelete :: "server \<Rightarrow> dashboard \<Rightarrow> dashboard \<times> event list" where
  "confirmDelete srv st =
     (case itemToDelete st of
        Some it \<Rightarrow>
          (let (tr, success) = deleteFile srv (item_id it)
           in if success
              then (let st1 = closeDeleteModal st
                    in (if item_id it \<in> set (selectedIds st1)
                        then handleSelect (item_id it) True st1 else st1), tr)
              else (st, tr))
      | None \<Rightarrow>
          if length (selectedIds st) > 0
          then (let (tr, success) = batchDeleteFiles srv (selectedIds st)
                in if success then (clearSelection (closeDeleteModal st), tr) else (st, tr))
          else (st, []))"

text \<open>
  What the user can do about deleting: ask to delete one entry (context menu, file card,
  preview), press the toolbar's delete button, or confirm or cancel the dialog. The
  dialog's buttons exist only while it is open.
\<close>

datatype ui_action =
    ClickDelete FileItem
  | ToolbarDelete
  | ConfirmDelete
  | CancelDelete
  | Select int bool

fun ui_step :: "server \<Rightarrow> ui_action \<Rightarrow> dashboard \<Rightarrow> dashboard \<times> event list" where
  "ui_step srv (ClickDelete f) st = handleDelete f st"
| "ui_step srv ToolbarDelete st = toolbar_onDelete st"
| "ui_step srv ConfirmDelete st = (if showDeleteModal st then confirmDelete srv st else (st, []))"
| "ui_step srv CancelDelete st = (if showDeleteModal st then (closeDeleteModal st, []) else (st, []))"
| "ui_step srv (Select i multi) st = (handleSelect i multi st, [])"

fun ui_run :: "server \<Rightarrow> ui_action list \<Rightarrow> dashboard \<Rightarrow> dashboard \<times> event list" where
  "ui_run srv [] st = (st, [])"
| "ui_run srv (a # as) st =
     (let (st1, tr1) = ui_step srv a st; (st2, tr2) = ui_run srv as st1 in (st2, tr1 @ tr2))"

section \<open>Breadcrumbs (components/dashboard/Breadcrumbs.tsx)\<close>

text \<open>
  \<open>String.prototype.split\<close> with a one-character separator: the pieces between the
  separators, empty pieces included; the empty string gives one empty piece.
\<close>

fun split_on :: "char \<Rightarrow> string \<Rightarrow> string list" where
  "split_on c [] = [[]]"
| "split_on c (x # xs) =
     (if x = c then [] # split_on c xs
      else (case split_on c xs of
              [] \<Rightarrow> [[x]]
            | w # ws \<Rightarrow> (x # w) # ws))"

datatype breadcrumb = Crumb (crumb_name: string) (crumb_path: string)

text \<open>The loop over \<open>parts\<close>, with \<open>accumulatedPath\<close> as its first argument.\<close>

fun push_parts :: "string \<Rightarrow> string list \<Rightarrow> breadcrumb list" where
  "push_parts accumulatedPath [] = []"
| "push_parts accumulatedPath (part # parts) =
     Crumb part (accumulatedPath @ ''/'' @ part) #
     push_parts (accumulatedPath @ ''/'' @ part) parts"

text \<open>\<open>currentPath.split('/').filter(p => p)\<close>: the non-empty pieces.\<close>

definition path_parts :: "string \<Rightarrow> string list" where
  "path_parts currentPath = filter (\<lambda>p. p \<noteq> []) (split_on CHR ''/'' currentPath)"

definition getBreadcrumbs :: "string \<Rightarrow> breadcrumb list" where
  "getBreadcrumbs currentPath =
     (if currentPath = ''/'' then [Crumb ''My Files'' ''/'']
      else Crumb ''My Files'' ''/'' # push_parts [] (path_parts currentPath))"

text \<open>Recomposing segments into a path: each one after a separator.\<close>

definition join_parts :: "string list \<Rightarrow> string" where
  "join_parts ps = concat (map (\<lambda>p. ''/'' @ p) ps)"

text \<open>
  The normal form of a path, written after the words of the specification (collapse
  \<open>//\<close>, strip a trailing slash except for the root), to compare the breadcrumbs with:
  \<open>collapse_slashes\<close> drops every separator that is followed by another one,
  \<open>strip_trailing_slash\<close> drops one separator at the end of any path but the root.
\<close>

fun collapse_slashes :: "string \<Rightarrow> string" where
  "collapse_slashes (a # b # r) =
     (if a = CHR ''/'' \<and> b = CHR ''/'' then collapse_slashes (b # r)
      else a # collapse_slashes (b # r))"
| "collapse_slashes s = s"

definition strip_trailing_slash :: "string \<Rightarrow> string" where
  "strip_trailing_slash p =
     (if p \<noteq> [] \<and> p \<noteq> ''/'' \<and> last p = CHR ''/'' then butlast p else p)"

definition normalize_path :: "string \<Rightarrow> string" where
  "normalize_path p = strip_trailing_slash (collapse_slashes p)"

text \<open>The separator a collapsed path still ends with, if the path ends with one.\<close>

definition trail :: "string \<Rightarrow> string" where
  "trail s = (if s \<noteq> [] \<and> last s = CHR ''/'' then ''/'' else [])"

section \<open>Filtering and sorting the listing (hooks/useFileFilter.ts)\<close>









text \<open>
  \<open>Array.prototype.sort\<close> with a comparator is a stable sort. For a consistent comparator
  its result is determined, and the insertion sort below computes it; for an
  inconsistent one the order is implementation-defined and the model shows one possible
  outcome.
\<close>

fun insert_by :: "('a \<Rightarrow> 'a \<Rightarrow> int) \<Rightarrow> 'a \<Rightarrow> 'a list \<Rightarrow> 'a list" where
  "insert_by cmp x [] = [x]"
| "insert_by cmp x (y # ys) = (if cmp x y \<le> 0 then x # y # ys else y # insert_by cmp x ys)"

definition js_sort :: "('a \<Rightarrow> 'a \<Rightarrow> int) \<Rightarrow> 'a list \<Rightarrow> 'a list" where
  "js_sort cmp xs = foldr (insert_by cmp) xs []"





section \<open>The size aggregator of the storage engine\<close>

text \<open>
  Modelled from the spec: the Size Aggregator (section 4.4) and the entry table it reads
  (section 3). The client only posts the selected ids to \<open>/api/files/size\<close> and receives
  \<open>{total_size_bytes, file_count, folder_count}\<close>; the server code that computes the answer
  is not among the sources.

  An entry has a unique id, an owner, the id of its parent folder (none for a root), a
  kind, and for a file the byte length of its blob. The store is the table of all
  entries.
\<close>

record Entry =
  entry_id :: nat
  owner_id :: nat
  parent_id :: "nat option"
  kind :: file_type
  entry_size :: nat

record totals =
  totalBytes :: nat
  fileCount :: nat
  folderCount :: nat

text \<open>
  Modelled from the spec: resolving an id for an owner, and listing the children of a
  folder (the entries of the owner whose parent link names it).
\<close>

definition lookup_entry :: "Entry list \<Rightarrow> nat \<Rightarrow> nat \<Rightarrow> Entry option" where
  "lookup_entry store owner i = find (\<lambda>e. entry_id e = i \<and> owner_id e = owner) store"

definition children_of :: "Entry list \<Rightarrow> nat \<Rightarrow> nat \<Rightarrow> nat list" where
  "children_of store owner p =
     map entry_id (filter (\<lambda>e. owner_id e = owner \<and> parent_id e = Some p) store)"

text \<open>
  Modelled from the spec: counting one entry. A file adds its size and one file; a folder
  adds one folder (a folder's own size is not stored).
\<close>

definition count_entry :: "Entry \<Rightarrow> totals \<Rightarrow> totals" where
  "count_entry e acc =
     (if kind e = File
      then acc\<lparr>totalBytes := totalBytes acc + entry_size e, fileCount := fileCount acc + 1\<rparr>
      else acc\<lparr>folderCount := folderCount acc + 1\<rparr>)"

text \<open>
  Modelled from the spec: the traversal of section 4.4, iterative with an explicit stack
  as section 9 asks, de-duplicating by entry id across the whole traversal: one set of
  visited ids is kept for all selected items. An id on the stack that was visited
  already, or that does not resolve for the owner, is dropped; a file is counted; a
  folder is counted and its children are pushed.
\<close>

function walk ::
  "Entry list \<Rightarrow> nat \<Rightarrow> nat list \<Rightarrow> nat list \<Rightarrow> totals \<Rightarrow> nat list \<times> totals" where
  "walk store owner [] visited acc = (visited, acc)"
| "walk store owner (i # stack) visited acc =
     (if i \<in> set visited then walk store owner stack visited acc
      else
        (case lookup_entry store owner i of
           None \<Rightarrow> walk store owner stack visited acc
         | Some e \<Rightarrow>
             if kind e = File
             then walk store owner stack (i # visited) (count_entry e acc)
             else walk store owner (children_of store owner i @ stack) (i # visited)
                    (count_entry e acc)))"
  by pat_completeness auto

termination walk
proof (relation "measures [\<lambda>(store, owner, stack, visited, acc). card (entry_id ` set store - set visited),
                           \<lambda>(store, owner, stack, visited, acc). length stack]", goal_cases)
  case 1
  show ?case by simp
next
  case (2 store owner i stack visited acc)
  then show ?case by simp
next
  case (3 store owner i stack visited acc)
  then show ?case by simp
next
  case (4 store owner i stack visited acc e)
  then have "i \<in> entry_id ` set store - set visited"
    by (auto simp: lookup_entry_def find_Some_iff)
  then have "entry_id ` set store - set (i # visited) \<subset> entry_id ` set store - set visited"
    by auto
  then have "card (entry_id ` set store - set (i # visited)) < card (entry_id ` set store - set visited)"
    by (intro psubset_card_mono) simp_all
  then show ?case by simp
next
  case (5 store owner i stack visited acc e)
  then have "i \<in> entry_id ` set store - set visited"
    by (auto simp: lookup_entry_def find_Some_iff)
  then have "entry_id ` set store - set (i # visited) \<subset> entry_id ` set store - set visited"
    by auto
  then have "card (entry_id ` set store - set (i # visited)) < card (entry_id ` set store - set visited)"
    by (intro psubset_card_mono) simp_all
  then show ?case by simp
qed

declare walk.simps [simp del]

text \<open>
  Modelled from the spec: \<open>aggregate(owner, entryIds)\<close>, the totals of one traversal
  started with the selected ids on the stack and nothing visited.
\<close>

definition aggregate :: "Entry list \<Rightarrow> nat \<Rightarrow> nat list \<Rightarrow> totals" where
  "aggregate store owner entryIds =
     snd (walk store owner entryIds [] \<lparr>totalBytes = 0, fileCount = 0, folderCount = 0\<rparr>)"

text \<open>
  What the selection covers, stated without the traversal. \<open>child_rel\<close> links a folder of
  the owner to each entry of the owner whose parent it is; the covered ids are the
  selected ids that resolve and everything below them.
\<close>

definition resolves :: "Entry list \<Rightarrow> nat \<Rightarrow> nat \<Rightarrow> bool" where
  "resolves store owner i \<longleftrightarrow> lookup_entry store owner i \<noteq> None"

definition child_rel :: "Entry list \<Rightarrow> nat \<Rightarrow> (nat \<times> nat) set" where
  "child_rel store owner =
     {(p, c). \<exists>ep ec. ep \<in> set store \<and> ec \<in> set store \<and>
        owner_id ep = owner \<and> owner_id ec = owner \<and>
        entry_id ep = p \<and> kind ep = Folder \<and> entry_id ec = c \<and> parent_id ec = Some p}"

definition covered :: "Entry list \<Rightarrow> nat \<Rightarrow> nat set \<Rightarrow> nat set" where
  "covered store owner sel = (child_rel store owner)\<^sup>* `` {i \<in> sel. resolves store owner i}"

definition kind_of :: "Entry list \<Rightarrow> nat \<Rightarrow> nat \<Rightarrow> file_type option" where
  "kind_of store owner i = map_option kind (lookup_entry store owner i)"

definition size_of :: "Entry list \<Rightarrow> nat \<Rightarrow> nat \<Rightarrow> nat" where
  "size_of store owner i =
     (case lookup_entry store owner i of None \<Rightarrow> 0 | Some e \<Rightarrow> entry_size e)"

text \<open>The totals of a list of visited ids, counted from nothing.\<close>

fun tally :: "Entry list \<Rightarrow> nat \<Rightarrow> nat list \<Rightarrow> totals" where
  "tally store owner [] = \<lparr>totalBytes = 0, fileCount = 0, folderCount = 0\<rparr>"
| "tally store owner (i # visited) =
     (case lookup_entry store owner i of
        None \<Rightarrow> tally store owner visited
      | Some e \<Rightarrow> count_entry e (tally store owner visited))"

text \<open>
  The scenario of the specification: the folder \<open>docs\<close> of owner 7 with the file \<open>a.txt\<close>
  of 100 bytes in it, next to a file of another owner.
\<close>

definition example_store :: "Entry list" where
  "example_store =
     [\<lparr>entry_id = 1, owner_id = 7, parent_id = None, kind = Folder, entry_size = 0\<rparr>,
      \<lparr>entry_id = 2, owner_id = 7, parent_id = Some 1, kind = File, entry_size = 100\<rparr>,
      \<lparr>entry_id = 3, owner_id = 8, parent_id = Some 1, kind = File, entry_size = 50\<rparr>]"

section \<open>Storage refresh after mutations\<close>






section \<open>Which names reach the server\<close>

lemma trim_blank_iff: "trim n = [] \<longleftrightarrow> (\<forall>c\<in>set n. is_js_space c)"
proof
  assume "trim n = []"
  then have "dropWhile is_js_space (rev (dropWhile is_js_space n)) = []"
    by (simp add: trim_def)
  then have "\<forall>c\<in>set (rev (dropWhile is_js_space n)). is_js_space c"
    by (metis dropWhile_eq_Nil_conv)
  then have "\<forall>c\<in>set (dropWhile is_js_space n). is_js_space c"
    by simp
  then have "dropWhile is_js_space n = []"
    by (metis hd_dropWhile hd_in_set)
  then show "\<forall>c\<in>set n. is_js_space c"
    by (metis dropWhile_eq_Nil_conv)
next
  assume "\<forall>c\<in>set n. is_js_space c"
  then have "dropWhile is_js_space n = []"
    by (metis dropWhile_eq_Nil_conv)
  then show "trim n = []"
    by (simp only: trim_def rev.simps dropWhile.simps)
qed

text \<open>
  Claim C3, as stated, fails: a name containing the separator, and a name of 300
  characters, are both sent to the server by \<open>createFolder\<close>.
\<close>

theorem separator_name_is_sent_counterexample:
  "fst (createFolder_fs (\<lambda>r. Resolved None) ''/'' ''a/b'') =
     [Request (Req_createFolder ''/'' ''a/b''), ToastSuccess ''Folder created successfully'',
      Request (Req_listFiles ''/'')] \<and>
   Request (Req_createFolder ''/'' (replicate 300 CHR ''a''))
     \<in> set (fst (createFolder_fs (\<lambda>r. Resolved None) ''/'' (replicate 300 CHR ''a'')))"
  apply (rule conjI)
   apply (simp add: createFolder_fs_def trim_def is_js_space_def fetchFiles_fs_def)
  apply (simp add: createFolder_fs_def trim_def is_js_space_def fetchFiles_fs_def)
  done

text \<open>
  Claim C3, amended. In the hook that calls the services itself, \<open>createFolder\<close> and
  \<open>renameFile\<close> perform no API request exactly when the name is empty or consists of white
  space only (every character of it is one that \<open>trim\<close> removes). Every other name, whether or not it contains a separator or exceeds a
  length bound, is sent unchanged in the first request of the operation; rejecting it is
  left to the server. The hook built on the mutations has no guard at all: it sends every
  name.
\<close>

theorem blank_names_only_are_held_back:
  "((\<exists>r. Request r \<in> set (fst (createFolder_fs srv p n))) \<longleftrightarrow> trim n \<noteq> []) \<and>
   ((\<exists>r. Request r \<in> set (fst (renameFile_fs srv p f n))) \<longleftrightarrow> trim n \<noteq> []) \<and>
   (trim n \<noteq> [] \<longrightarrow>
      hd (fst (createFolder_fs srv p n)) = Request (Req_createFolder p n) \<and>
      hd (fst (renameFile_fs srv p f n)) = Request (Req_renameFile (item_id f) n)) \<and>
   hd (fst (createFolder srv p n)) = Request (Req_createFolder p n) \<and>
   hd (fst (renameFile srv (item_id f) n)) = Request (Req_renameFile (item_id f) n) \<and>
   (trim n = [] \<longleftrightarrow> (\<forall>c\<in>set n. is_js_space c))"
proof -
  have "((\<exists>r. Request r \<in> set (fst (createFolder_fs srv p n))) \<longleftrightarrow> trim n \<noteq> []) \<and>
   ((\<exists>r. Request r \<in> set (fst (renameFile_fs srv p f n))) \<longleftrightarrow> trim n \<noteq> []) \<and>
   (trim n \<noteq> [] \<longrightarrow>
      hd (fst (createFolder_fs srv p n)) = Request (Req_createFolder p n) \<and>
      hd (fst (renameFile_fs srv p f n)) = Request (Req_renameFile (item_id f) n)) \<and>
   hd (fst (createFolder srv p n)) = Request (Req_createFolder p n) \<and>
   hd (fst (renameFile srv (item_id f) n)) = Request (Req_renameFile (item_id f) n)"
    by (auto simp: createFolder_fs_def renameFile_fs_def createFolder_def renameFile_def
      useCreateFolderMutation_def useRenameFileMutation_def useMutation_def
      split: outcome.splits option.splits)
  then show ?thesis
    using trim_blank_iff [of n] by blast
qed

theorem blank_names_only_are_held_back_witness:
  "trim ''docs/2024'' \<noteq> [] \<and>
   hd (fst (createFolder_fs (\<lambda>r. Rejected OtherError) ''/'' ''docs/2024'')) =
     Request (Req_createFolder ''/'' ''docs/2024'') \<and>
   trim ''  '' = [] \<and> is_js_space CHR '' '' \<and>
   \<not> (\<exists>r. Request r \<in> set (fst (createFolder_fs (\<lambda>r. Rejected OtherError) ''/'' ''  '')))"
  using blank_names_only_are_held_back [of "\<lambda>r. Rejected OtherError" "''/''" "''docs/2024''"]
    blank_names_only_are_held_back [of "\<lambda>r. Rejected OtherError" "''/''" "''  ''"]
  by (simp add: trim_def is_js_space_def)

section \<open>What a failed operation shows\<close>

text \<open>
  Claim C8, as stated, fails: a rejection without a server message (no response, or a
  response without a message), a rejection with an empty message and a thrown value that
  is no \<open>AxiosError\<close> all end in the same toast with the fixed text of the operation, and
  in the same return value.
\<close>

theorem failures_without_message_collapse_counterexample:
  "createFolder (\<lambda>r. Rejected (AxiosError (Some 500) None)) ''/'' ''docs'' =
     ([Request (Req_createFolder ''/'' ''docs''), ToastError ''Failed to create folder''], False) \<and>
   createFolder (\<lambda>r. Rejected (AxiosError None None)) ''/'' ''docs'' =
     createFolder (\<lambda>r. Rejected (AxiosError (Some 500) None)) ''/'' ''docs'' \<and>
   createFolder (\<lambda>r. Rejected (AxiosError (Some 409) (Some []))) ''/'' ''docs'' =
     createFolder (\<lambda>r. Rejected (AxiosError (Some 500) None)) ''/'' ''docs'' \<and>
   createFolder (\<lambda>r. Rejected OtherError) ''/'' ''docs'' =
     createFolder (\<lambda>r. Rejected (AxiosError (Some 500) None)) ''/'' ''docs''"
  by (simp add: createFolder_def useCreateFolderMutation_def useMutation_def)

text \<open>
  Claim C8, amended. When the server rejects create-folder, rename, move, copy or delete
  with an error \<open>err\<close>, the operation sends its one request, shows one error toast and
  returns \<open>false\<close>. The toast is the server's message whenever the response carries a
  non-empty one, so that failures with different messages stay apart; without such a
  message it is the fixed text of the operation.
\<close>

theorem failure_toast_is_server_message_or_fallback:
  "(srv (Req_createFolder p n) = Rejected err \<longrightarrow>
      createFolder srv p n =
        ([Request (Req_createFolder p n),
          ToastError (js_or (response_message err) ''Failed to create folder'')], False)) \<and>
   (srv (Req_renameFile i n) = Rejected err \<longrightarrow>
      renameFile srv i n =
        ([Request (Req_renameFile i n),
          ToastError (js_or (response_message err) ''Failed to rename file'')], False)) \<and>
   (srv (Req_moveFile i d) = Rejected err \<longrightarrow>
      moveFile srv i d =
        ([Request (Req_moveFile i d),
          ToastError (js_or (response_message err) ''Failed to move file'')], False)) \<and>
   (srv (Req_copyFile i d) = Rejected err \<longrightarrow>
      copyFile srv i d =
        ([Request (Req_copyFile i d),
          ToastError (js_or (response_message err) ''Failed to copy file'')], False)) \<and>
   (srv (Req_deleteFile i) = Rejected err \<longrightarrow>
      deleteFile srv i =
        ([Request (Req_deleteFile i),
          ToastError (js_or (response_message err) ''Failed to delete file'')], False)) \<and>
   (response_message err = Some m \<and> m \<noteq> [] \<longrightarrow> js_or (response_message err) fallback = m) \<and>
   (response_message err = None \<or> response_message err = Some [] \<longrightarrow>
      js_or (response_message err) fallback = fallback)"
  by (auto simp: createFolder_def renameFile_def moveFile_def copyFile_def deleteFile_def
      useCreateFolderMutation_def useRenameFileMutation_def useMoveFileMutation_def
      useCopyFileMutation_def useDeleteFileMutation_def useMutation_def)

theorem failure_toast_is_server_message_or_fallback_witness:
  "createFolder (\<lambda>r. Rejected (AxiosError (Some 409) (Some ''Name already exists''))) ''/'' ''docs'' =
     ([Request (Req_createFolder ''/'' ''docs''), ToastError ''Name already exists''], False) \<and>
   copyFile (\<lambda>r. Rejected (AxiosError (Some 413) (Some ''Quota exceeded''))) 7 ''/docs'' =
     ([Request (Req_copyFile 7 ''/docs''), ToastError ''Quota exceeded''], False) \<and>
   deleteFile (\<lambda>r. Rejected OtherError) 7 =
     ([Request (Req_deleteFile 7), ToastError ''Failed to delete file''], False)"
  using failure_toast_is_server_message_or_fallback
    [of "\<lambda>r. Rejected (AxiosError (Some 409) (Some ''Name already exists''))" "''/''" "''docs''"
        "AxiosError (Some 409) (Some ''Name already exists'')" 7 "''/docs''"
        "''Name already exists''" "''Failed to create folder''"]
    failure_toast_is_server_message_or_fallback
    [of "\<lambda>r. Rejected (AxiosError (Some 413) (Some ''Quota exceeded''))" "''/''" "''docs''"
        "AxiosError (Some 413) (Some ''Quota exceeded'')" 7 "''/docs''"
        "''Quota exceeded''" "''Failed to copy file''"]
    failure_toast_is_server_message_or_fallback
    [of "\<lambda>r. Rejected OtherError" "''/''" "''docs''" OtherError 7 "''/docs''"
        "''x''" "''Failed to delete file''"]
  by simp

section \<open>Which download endpoint is used\<close>

lemma endsWith_append: "endsWith (s @ suf) suf"
  by (simp add: endsWith_def)

lemma requests_of_simps:
  "requests_of [] = []"
  "requests_of (Request r # tr) = r # requests_of tr"
  "requests_of (ToastSuccess s # tr) = requests_of tr"
  "requests_of (ToastError s # tr) = requests_of tr"
  "requests_of (ToastInfo s # tr) = requests_of tr"
  "requests_of (Invalidate k # tr) = requests_of tr"
  "requests_of (AddTask t s ty # tr) = requests_of tr"
  "requests_of (UpdateTask t fs # tr) = requests_of tr"
  "requests_of (SaveAs s # tr) = requests_of tr"
  "requests_of (ConsoleError s # tr) = requests_of tr"
  "requests_of (tr @ tr') = requests_of tr @ requests_of tr'"
  by (simp_all add: requests_of_def)

lemma download_single:
  "requests_of (fst (batchDownloadFiles srv dec ft files [i])) =
     [if (case find (\<lambda>f. item_id f = i) files of
            Some f \<Rightarrow> file_type f = File | None \<Rightarrow> True)
      then Req_downloadFile i else Req_batchDownload [i]]"
proof (cases "find (\<lambda>f. item_id f = i) files")
  case None
  then show ?thesis
    by (cases "srv (Req_downloadFile i)")
       (simp_all add: batchDownloadFiles_def Let_def requests_of_simps
          split: option.splits api_error.splits)
next
  case (Some f)
  show ?thesis
  proof (cases "file_type f")
    case File
    with Some show ?thesis
      by (cases "srv (Req_downloadFile i)")
         (simp_all add: batchDownloadFiles_def Let_def requests_of_simps
            split: option.splits api_error.splits)
  next
    case Folder
    with Some show ?thesis
      by (cases "srv (Req_batchDownload [i])")
         (simp_all add: batchDownloadFiles_def Let_def requests_of_simps
            split: option.splits api_error.splits)
  qed
qed

lemma download_single_folder_zip:
  assumes "find (\<lambda>f. item_id f = i) files = Some f" "file_type f = Folder"
    and "SaveAs n \<in> set (fst (batchDownloadFiles srv dec ft files [i]))"
  shows "endsWith n ''.zip''"
  using assms
  by (cases "srv (Req_batchDownload [i])")
     (auto simp add: batchDownloadFiles_def Let_def endsWith_append
        split: option.splits api_error.splits if_splits)

lemma download_many:
  assumes "length fileIds > 1"
  shows "requests_of (fst (batchDownloadFiles srv dec ft files fileIds)) =
           [Req_batchDownload fileIds]"
  using assms
  by (cases "srv (Req_batchDownload fileIds)")
     (auto simp add: batchDownloadFiles_def Let_def requests_of_simps
        split: option.splits api_error.splits)

lemma download_many_zip:
  assumes "length fileIds > 1"
    and "SaveAs n \<in> set (fst (batchDownloadFiles srv dec ft files fileIds))"
  shows "endsWith n ''.zip''"
  using assms
  by (cases "srv (Req_batchDownload fileIds)")
     (auto simp add: batchDownloadFiles_def Let_def endsWith_append
        split: option.splits api_error.splits if_splits)

text \<open>
  Claim C4, amended. For a non-empty id list the download sends exactly one request. It is
  the direct download of the id when the list has exactly one id and this id does not
  resolve to a folder of the listing: it resolves to a non-folder file, or to no listed
  entry at all (the type then keeps its default \<open>'file'\<close>). Otherwise, for a single id
  that resolves to a folder and for more than one id, it is the batch request for the
  whole list, and every name a download is saved under ends in \<open>.zip\<close>.
\<close>

theorem download_endpoint_choice:
  assumes "fileIds \<noteq> []"
  shows "requests_of (fst (batchDownloadFiles srv dec ft files fileIds)) =
           [if length fileIds = 1 \<and>
               (case find (\<lambda>f. item_id f = hd fileIds) files of
                  Some f \<Rightarrow> file_type f = File | None \<Rightarrow> True)
            then Req_downloadFile (hd fileIds) else Req_batchDownload fileIds] \<and>
         (\<not> (length fileIds = 1 \<and>
               (case find (\<lambda>f. item_id f = hd fileIds) files of
                  Some f \<Rightarrow> file_type f = File | None \<Rightarrow> True)) \<longrightarrow>
            (\<forall>n. SaveAs n \<in> set (fst (batchDownloadFiles srv dec ft files fileIds)) \<longrightarrow>
                 endsWith n ''.zip''))"
proof (cases "length fileIds = 1")
  case True
  then obtain i where i: "fileIds = [i]"
    by (cases fileIds) auto
  have req: "requests_of (fst (batchDownloadFiles srv dec ft files fileIds)) =
           [if length fileIds = 1 \<and>
               (case find (\<lambda>f. item_id f = hd fileIds) files of
                  Some f \<Rightarrow> file_type f = File | None \<Rightarrow> True)
            then Req_downloadFile (hd fileIds) else Req_batchDownload fileIds]"
    unfolding i using download_single [of srv dec ft files i] by simp
  have zip: "endsWith n ''.zip''"
    if nd: "\<not> (case find (\<lambda>f. item_id f = hd fileIds) files of
                  Some f \<Rightarrow> file_type f = File | None \<Rightarrow> True)"
      and sv: "SaveAs n \<in> set (fst (batchDownloadFiles srv dec ft files fileIds))" for n
  proof -
    from nd obtain f where f: "find (\<lambda>f. item_id f = i) files = Some f" "file_type f \<noteq> File"
      unfolding i by (auto split: option.splits)
    then have "file_type f = Folder"
      by (cases "file_type f") auto
    from download_single_folder_zip [OF f(1) this] sv show ?thesis
      unfolding i by blast
  qed
  show ?thesis
  proof (intro conjI impI allI)
    show "requests_of (fst (batchDownloadFiles srv dec ft files fileIds)) =
           [if length fileIds = 1 \<and>
               (case find (\<lambda>f. item_id f = hd fileIds) files of
                  Some f \<Rightarrow> file_type f = File | None \<Rightarrow> True)
            then Req_downloadFile (hd fileIds) else Req_batchDownload fileIds]"
      by (fact req)
  next
    fix n
    assume "\<not> (length fileIds = 1 \<and>
               (case find (\<lambda>f. item_id f = hd fileIds) files of
                  Some f \<Rightarrow> file_type f = File | None \<Rightarrow> True))"
      and sv: "SaveAs n \<in> set (fst (batchDownloadFiles srv dec ft files fileIds))"
    with True have "\<not> (case find (\<lambda>f. item_id f = hd fileIds) files of
                  Some f \<Rightarrow> file_type f = File | None \<Rightarrow> True)"
      by blast
    then show "endsWith n ''.zip''"
      using sv by (rule zip)
  qed
next
  case False
  with assms have "length fileIds > 1"
    by (cases fileIds) auto
  with False show ?thesis
    using download_many [of fileIds srv dec ft files]
      download_many_zip [of fileIds _ srv dec ft files]
    by auto
qed

theorem download_endpoint_choice_witness:
  "[3] \<noteq> ([]::int list) \<and>
   requests_of (fst (batchDownloadFiles (\<lambda>r. Resolved None) Some (\<lambda>e. ''failed'')
       [docs_folder, notes_file] [3])) = [Req_batchDownload [3]] \<and>
   SaveAs ''docs.zip'' \<in> set (fst (batchDownloadFiles (\<lambda>r. Resolved None) Some (\<lambda>e. ''failed'')
       [docs_folder, notes_file] [3])) \<and>
   endsWith ''docs.zip'' ''.zip'' \<and>
   requests_of (fst (batchDownloadFiles (\<lambda>r. Resolved None) Some (\<lambda>e. ''failed'')
       [docs_folder, notes_file] [4])) = [Req_downloadFile 4]"
  using download_endpoint_choice [of "[3]" "\<lambda>r. Resolved None" Some "\<lambda>e. ''failed''"
      "[docs_folder, notes_file]"]
    download_endpoint_choice [of "[4]" "\<lambda>r. Resolved None" Some "\<lambda>e. ''failed''"
      "[docs_folder, notes_file]"]
  by (simp add: docs_folder_def notes_file_def batchDownloadFiles_def header_filename_def Let_def
      endsWith_def requests_of_def)

text \<open>
  Claim C4, as stated, fails for an id that is not in the listing: it does not resolve to
  a non-folder file, yet the direct download endpoint is requested.
\<close>

theorem unlisted_id_is_downloaded_directly_counterexample:
  "find (\<lambda>f. item_id f = 7) [docs_folder, notes_file] = None \<and>
   requests_of (fst (batchDownloadFiles (\<lambda>r. Resolved None) Some (\<lambda>e. ''failed'')
       [docs_folder, notes_file] [7])) = [Req_downloadFile 7]"
  by (simp add: docs_folder_def notes_file_def batchDownloadFiles_def header_filename_def Let_def
      requests_of_def)

section \<open>Moving a folder: which destinations the selector lets through\<close>

lemma startsWith_iff: "startsWith s p \<longleftrightarrow> (\<exists>r. s = p @ r)"
  by (metis append_eq_conv_conj startsWith_def)

lemma handleConfirm_folder:
  assumes "q \<noteq> []" "p \<noteq> []"
  shows "handleConfirm (Some q) (Some p) cur = (if startsWith p q then None else Some p)"
  using assms by (simp add: handleConfirm_def)

lemma handleConfirm_blocks_self_and_descendants:
  assumes "q \<noteq> []" and "p = q \<or> startsWith p (q @ ''/'')"
  shows "handleConfirm (Some q) (Some p) cur = None"
proof -
  from assms have "p \<noteq> []" and "startsWith p q"
    by (auto simp: startsWith_iff)
  with assms(1) show ?thesis
    by (simp add: handleConfirm_folder)
qed

text \<open>
  Claim C1, at the failing input. Moving the folder \<open>/docs\<close>, the sibling folder \<open>/docs2\<close>
  is neither the moved folder nor a path under it, and the selector's list lets the user
  select it (\<open>isExcluded\<close> is false); yet confirming it sends no move request, because
  \<open>handleConfirm\<close> compares with a bare \<open>startsWith\<close>.
\<close>

theorem confirm_drops_sibling_sharing_a_prefix:
  "path docs_folder = ''/docs'' \<and>
   ''/docs2'' \<noteq> path docs_folder \<and>
   \<not> startsWith ''/docs2'' (path docs_folder @ ''/'') \<and>
   \<not> isExcluded (move_excludePath (Some docs_folder))
         (docs_folder\<lparr>item_id := 9, name := ''docs2'', path := ''/docs2''\<rparr>) \<and>
   handleConfirm (move_excludePath (Some docs_folder)) (Some ''/docs2'') ''/'' = None \<and>
   confirm_move (\<lambda>r. Resolved None) (Some docs_folder) (Some ''/docs2'') ''/'' = [] \<and>
   confirm_move (\<lambda>r. Resolved None) (Some docs_folder) (Some ''/other'') ''/'' =
     [Request (Req_moveFile 3 ''/other''), ToastSuccess ''File moved successfully'',
      Invalidate QK_files]"
  by (simp add: docs_folder_def startsWith_def isExcluded_def move_excludePath_def
      handleConfirm_def confirm_move_def handleMove_def moveFile_def useMoveFileMutation_def
      useMutation_def)

section \<open>Deleting: where the permission flag is read\<close>

lemma handleDelete_denied:
  "\<not> can_delete f \<Longrightarrow> fst (handleDelete f st) = st \<and> requests_of (snd (handleDelete f st)) = []"
  by (simp add: handleDelete_def requests_of_def)

lemma single_delete_is_gated:
  assumes "\<not> can_delete f" "\<not> showDeleteModal st"
  shows "requests_of (snd (ui_run srv [ClickDelete f, ConfirmDelete] st)) = []"
  using assms by (simp add: handleDelete_def requests_of_def)

text \<open>
  The batch path reads no permission flag: with a non-empty selection, the toolbar's
  delete button followed by the confirmation sends a delete request for every selected
  id.
\<close>

lemma batchDeleteFiles_requests:
  "requests_of (fst (batchDeleteFiles srv ids)) = map Req_deleteFile ids"
  by (induction ids)
     (auto simp: batchDeleteFiles_def useBatchDeleteMutation_def useMutation_def requests_of_def
        split: option.splits)

lemma toolbar_delete_is_not_gated:
  assumes "selectedIds st \<noteq> []"
  shows "requests_of (snd (ui_run srv [ToolbarDelete, ConfirmDelete] st)) =
           map Req_deleteFile (selectedIds st)"
proof -
  have "requests_of (snd (confirmDelete srv (openDeleteModal None st))) =
          map Req_deleteFile (selectedIds st)"
    using assms batchDeleteFiles_requests [of srv "selectedIds st"]
    by (cases "batchDeleteFiles srv (selectedIds st)")
       (auto simp: confirmDelete_def openDeleteModal_def)
  with assms show ?thesis
    by (simp add: toolbar_onDelete_def openDeleteModal_def split: prod.splits)
qed

text \<open>
  Claim C6, at the failing input. The entries \<open>docs\<close> (deletable) and \<open>notes.txt\<close> (not
  deletable) are both selected. Pressing the toolbar's delete button and confirming the
  dialog sends a delete request for \<open>notes.txt\<close>; so does asking to delete \<open>docs\<close> from
  its own menu and confirming. Asking to delete \<open>notes.txt\<close> itself is refused.
\<close>

theorem batch_delete_reaches_undeletable_entry:
  "\<not> can_delete notes_file \<and>
   snd (ui_run (\<lambda>r. Resolved None) [ToolbarDelete, ConfirmDelete]
         \<lparr>selectedIds = [item_id docs_folder, item_id notes_file],
          itemToDelete = None, showDeleteModal = False\<rparr>) =
     [Request (Req_deleteFile 3), Request (Req_deleteFile (item_id notes_file)),
      ToastSuccess ''Files deleted successfully'', Invalidate QK_files, Invalidate QK_storage] \<and>
   snd (ui_run (\<lambda>r. Resolved None) [ClickDelete docs_folder, ConfirmDelete]
         \<lparr>selectedIds = [item_id docs_folder, item_id notes_file],
          itemToDelete = None, showDeleteModal = False\<rparr>) =
     [Request (Req_deleteFile 3), Request (Req_deleteFile (item_id notes_file)),
      ToastSuccess ''Files deleted successfully'', Invalidate QK_files, Invalidate QK_storage] \<and>
   requests_of (snd (ui_run (\<lambda>r. Resolved None) [ClickDelete notes_file, ConfirmDelete]
         \<lparr>selectedIds = [item_id docs_folder, item_id notes_file],
          itemToDelete = None, showDeleteModal = False\<rparr>)) = []"
  by (simp add: docs_folder_def notes_file_def handleDelete_def toolbar_onDelete_def
      confirmDelete_def openDeleteModal_def closeDeleteModal_def clearSelection_def
      batchDeleteFiles_def useBatchDeleteMutation_def useMutation_def requests_of_def)

section \<open>Breadcrumbs and the normal form of a path\<close>

lemma split_on_not_Nil: "split_on c s \<noteq> []"
  by (induction s) (auto split: list.splits)

lemma split_on_no_sep: "c \<notin> set w \<Longrightarrow> split_on c w = [w]"
  by (induction w) auto

lemma split_on_append_sep: "c \<notin> set w \<Longrightarrow> split_on c (w @ c # t) = w # split_on c t"
  by (induction w) auto

lemma split_on_pieces_free: "w \<in> set (split_on c s) \<Longrightarrow> c \<notin> set w"
proof (induction s arbitrary: w)
  case Nil
  then show ?case by simp
next
  case (Cons x xs)
  show ?case
  proof (cases "x = c")
    case True
    with Cons show ?thesis by auto
  next
    case False
    obtain v vs where v: "split_on c xs = v # vs"
      using split_on_not_Nil [of c xs] by (cases "split_on c xs") auto
    with Cons.prems False have "w = x # v \<or> w \<in> set vs"
      by auto
    with Cons.IH v False show ?thesis
      by auto
  qed
qed

lemma path_parts_Nil [simp]: "path_parts [] = []"
  by (simp add: path_parts_def)

lemma path_parts_slash [simp]: "path_parts (CHR ''/'' # t) = path_parts t"
  by (simp add: path_parts_def)

lemma path_parts_no_sep: "CHR ''/'' \<notin> set w \<Longrightarrow> w \<noteq> [] \<Longrightarrow> path_parts w = [w]"
  by (simp add: path_parts_def split_on_no_sep)

lemma path_parts_append_sep:
  "CHR ''/'' \<notin> set w \<Longrightarrow> w \<noteq> [] \<Longrightarrow> path_parts (w @ CHR ''/'' # t) = w # path_parts t"
  by (simp add: path_parts_def split_on_append_sep)

lemma path_parts_free: "w \<in> set (path_parts s) \<Longrightarrow> CHR ''/'' \<notin> set w \<and> w \<noteq> []"
  by (auto simp: path_parts_def dest: split_on_pieces_free)

lemma path_parts_Nil_all_sep: "path_parts s = [] \<Longrightarrow> x \<in> set s \<Longrightarrow> x = CHR ''/''"
proof (induction s)
  case Nil
  then show ?case by simp
next
  case (Cons y t)
  show ?case
  proof (cases "y = CHR ''/''")
    case True
    with Cons show ?thesis by auto
  next
    case False
    obtain v vs where "split_on CHR ''/'' t = v # vs"
      using split_on_not_Nil [of "CHR ''/''" t] by (cases "split_on CHR ''/'' t") auto
    with False have "path_parts (y # t) \<noteq> []"
      by (simp add: path_parts_def)
    with Cons.prems show ?thesis by simp
  qed
qed

lemma collapse_no_sep: "CHR ''/'' \<notin> set w \<Longrightarrow> collapse_slashes (w @ t) = w @ collapse_slashes t"
proof (induction w)
  case Nil
  then show ?case by simp
next
  case (Cons x w)
  then show ?case
    by (cases "w @ t") auto
qed

lemma collapse_slash_no_sep:
  assumes "CHR ''/'' \<notin> set w" "w \<noteq> []"
  shows "collapse_slashes (CHR ''/'' # w @ t) = CHR ''/'' # w @ collapse_slashes t"
proof -
  from assms obtain x w' where w: "w = x # w'" and x: "x \<noteq> CHR ''/''"
    by (cases w) auto
  have "collapse_slashes (CHR ''/'' # w @ t) = CHR ''/'' # collapse_slashes (w @ t)"
    using x by (simp add: w)
  with assms(1) show ?thesis
    by (simp add: collapse_no_sep)
qed

lemma first_piece:
  assumes "s \<noteq> []" "hd s \<noteq> c"
  obtains w t where "s = w @ t" "w \<noteq> []" "c \<notin> set w" "t = [] \<or> (\<exists>t'. t = c # t')"
proof
  let ?w = "takeWhile (\<lambda>x. x \<noteq> c) s" and ?t = "dropWhile (\<lambda>x. x \<noteq> c) s"
  show "s = ?w @ ?t" by simp
  show "?w \<noteq> []" using assms by (cases s) auto
  show "c \<notin> set ?w" by (auto dest: set_takeWhileD)
  show "?t = [] \<or> (\<exists>t'. ?t = c # t')"
    by (metis (mono_tags, lifting) hd_dropWhile list.collapse)
qed

lemma join_parts_simps [simp]:
  "join_parts [] = []" "join_parts (p # ps) = CHR ''/'' # p @ join_parts ps"
  by (simp_all add: join_parts_def)

lemma collapse_rooted:
  "collapse_slashes (CHR ''/'' # s) =
     (if path_parts s = [] then ''/'' else join_parts (path_parts s) @ trail s)"
proof (induction "length s" arbitrary: s rule: less_induct)
  case less
  show ?case
  proof (cases s)
    case Nil
    then show ?thesis by simp
  next
    case (Cons x t)
    show ?thesis
    proof (cases "x = CHR ''/''")
      case True
      have "collapse_slashes (CHR ''/'' # s) = collapse_slashes (CHR ''/'' # t)"
        using True Cons by simp
      also have "\<dots> = (if path_parts t = [] then ''/'' else join_parts (path_parts t) @ trail t)"
        using less [of t] Cons by simp
      also have "\<dots> = (if path_parts s = [] then ''/'' else join_parts (path_parts s) @ trail s)"
        using True Cons by (auto simp: trail_def)
      finally show ?thesis .
    next
      case False
      with Cons have "s \<noteq> []" "hd s \<noteq> CHR ''/''" by auto
      then obtain w r where wr: "s = w @ r" "w \<noteq> []" "CHR ''/'' \<notin> set w"
        "r = [] \<or> (\<exists>t'. r = CHR ''/'' # t')"
        by (rule first_piece)
      have c: "collapse_slashes (CHR ''/'' # s) = CHR ''/'' # w @ collapse_slashes r"
        using wr by (simp add: collapse_slash_no_sep)
      from wr(4) show ?thesis
      proof
        assume "r = []"
        moreover from wr have "last w \<noteq> CHR ''/''"
          using last_in_set [of w] by metis
        ultimately show ?thesis
          using wr c by (simp add: path_parts_no_sep trail_def)
      next
        assume "\<exists>t'. r = CHR ''/'' # t'"
        then obtain t' where r: "r = CHR ''/'' # t'" by blast
        have "length t' < length s" using wr r by simp
        from less [OF this]
        have "collapse_slashes r =
               (if path_parts t' = [] then ''/'' else join_parts (path_parts t') @ trail t')"
          by (simp add: r)
        moreover have "path_parts s = w # path_parts t'"
          using wr r by (simp add: path_parts_append_sep)
        moreover have "path_parts t' \<noteq> [] \<Longrightarrow> t' \<noteq> []"
          by auto
        then have "path_parts t' \<noteq> [] \<Longrightarrow> trail s = trail t'"
          using wr r by (auto simp: trail_def)
        moreover have "path_parts t' = [] \<Longrightarrow> trail s = ''/''"
        proof -
          assume e: "path_parts t' = []"
          have "t' \<noteq> [] \<Longrightarrow> last t' = CHR ''/''"
            using path_parts_Nil_all_sep [OF e] last_in_set [of t'] by blast
          then show ?thesis using wr r by (auto simp: trail_def)
        qed
        ultimately show ?thesis
          using c by auto
      qed
    qed
  qed
qed


lemma join_parts_append [simp]: "join_parts (ps @ qs) = join_parts ps @ join_parts qs"
  by (simp add: join_parts_def)

lemma join_parts_last:
  assumes "ps \<noteq> []" "\<forall>w\<in>set ps. CHR ''/'' \<notin> set w \<and> w \<noteq> []"
  shows "join_parts ps \<noteq> []" "join_parts ps \<noteq> ''/''" "last (join_parts ps) \<noteq> CHR ''/''"
proof -
  from assms(1) obtain qs w where ps: "ps = qs @ [w]"
    by (metis append_butlast_last_id)
  with assms(2) have w: "w \<noteq> []" "CHR ''/'' \<notin> set w" by auto
  show "join_parts ps \<noteq> []" by (simp add: ps)
  have "last w \<noteq> CHR ''/''"
    using w last_in_set [of w] by metis
  then show "last (join_parts ps) \<noteq> CHR ''/''"
    using w by (simp add: ps)
  then show "join_parts ps \<noteq> ''/''" by auto
qed

lemma normalize_rooted:
  "normalize_path (CHR ''/'' # s) =
     (if path_parts s = [] then ''/'' else join_parts (path_parts s))"
proof (cases "path_parts s = []")
  case True
  then show ?thesis
    by (simp add: normalize_path_def collapse_rooted strip_trailing_slash_def)
next
  case False
  have free: "\<forall>w\<in>set (path_parts s). CHR ''/'' \<notin> set w \<and> w \<noteq> []"
    using path_parts_free by blast
  note j = join_parts_last [OF False free]
  show ?thesis
  proof (cases "trail s = []")
    case True
    with False j show ?thesis
      by (simp add: normalize_path_def collapse_rooted strip_trailing_slash_def)
  next
    case nt: False
    then have "trail s = ''/''" by (simp add: trail_def split: if_splits)
    with False j show ?thesis
      by (simp add: normalize_path_def collapse_rooted strip_trailing_slash_def butlast_append)
  qed
qed

lemma push_parts_names: "map crumb_name (push_parts acc ps) = ps"
  by (induction ps arbitrary: acc) auto

lemma push_parts_length: "length (push_parts acc ps) = length ps"
  by (induction ps arbitrary: acc) auto

lemma push_parts_path:
  "k < length ps \<Longrightarrow> crumb_path (push_parts acc ps ! k) = acc @ join_parts (take (Suc k) ps)"
proof (induction ps arbitrary: acc k)
  case Nil
  then show ?case by simp
next
  case (Cons p ps)
  then show ?case
    by (cases k) auto
qed

lemma push_parts_last:
  assumes "ps \<noteq> []"
  shows "crumb_path (last (push_parts acc ps)) = acc @ join_parts ps"
proof -
  have "push_parts acc ps \<noteq> []"
    using assms push_parts_length [of acc ps] by auto
  then have "last (push_parts acc ps) = push_parts acc ps ! (length ps - 1)"
    by (simp add: last_conv_nth push_parts_length)
  then show ?thesis
    using assms push_parts_path [of "length ps - 1" ps acc] by simp
qed

lemma getBreadcrumbs_last:
  "crumb_path (last (getBreadcrumbs p)) = normalize_path (CHR ''/'' # p)"
proof (cases "path_parts p = []")
  case True
  then show ?thesis
    by (simp add: getBreadcrumbs_def normalize_rooted)
next
  case False
  then have "p \<noteq> ''/''" by auto
  moreover have "push_parts [] (path_parts p) \<noteq> []"
    using False push_parts_length [of "[]" "path_parts p"] by auto
  ultimately show ?thesis
    using False by (simp add: getBreadcrumbs_def normalize_rooted push_parts_last)
qed

lemma normalize_absolute:
  assumes "p \<noteq> []" "hd p = CHR ''/''"
  shows "normalize_path (CHR ''/'' # p) = normalize_path p"
proof -
  from assms obtain s where "p = CHR ''/'' # s" by (cases p) auto
  then show ?thesis by (simp add: normalize_path_def)
qed

text \<open>
  Claim C7, amended. For every path string the breadcrumbs start at the root \<open>/\<close>; the
  crumbs after it are named by the non-empty segments of the path, in order and all of
  them: a segment \<open>.\<close> or \<open>..\<close> is kept like any other, nothing is rejected. The path of the
  crumb at position \<open>k\<close> is the recomposition of the first \<open>k\<close> segments, and the path of
  the last crumb is the normal form of the path read from the root. For a logical path,
  which starts with the separator, this is the normal form of the path itself (repeated
  separators collapsed, the trailing separator stripped except for the root), and it
  equals the recomposition of all segments when there is one.
\<close>

theorem breadcrumbs_normalize_keeping_dot_segments:
  "crumb_path (hd (getBreadcrumbs p)) = ''/'' \<and>
   map crumb_name (tl (getBreadcrumbs p)) = path_parts p \<and>
   (\<forall>k<length (path_parts p).
      crumb_path (tl (getBreadcrumbs p) ! k) = join_parts (take (Suc k) (path_parts p))) \<and>
   crumb_path (last (getBreadcrumbs p)) = normalize_path (CHR ''/'' # p) \<and>
   (p \<noteq> [] \<and> hd p = CHR ''/'' \<longrightarrow>
      crumb_path (last (getBreadcrumbs p)) = normalize_path p \<and>
      (path_parts p \<noteq> [] \<longrightarrow> join_parts (path_parts p) = normalize_path p))"
proof (intro conjI allI impI)
  show "crumb_path (hd (getBreadcrumbs p)) = ''/''"
    by (simp add: getBreadcrumbs_def)
  show "map crumb_name (tl (getBreadcrumbs p)) = path_parts p"
    by (simp add: getBreadcrumbs_def push_parts_names)
  show "crumb_path (last (getBreadcrumbs p)) = normalize_path (CHR ''/'' # p)"
    by (rule getBreadcrumbs_last)
next
  fix k assume "k < length (path_parts p)"
  then show "crumb_path (tl (getBreadcrumbs p) ! k) = join_parts (take (Suc k) (path_parts p))"
    by (auto simp add: getBreadcrumbs_def push_parts_path)
next
  assume a: "p \<noteq> [] \<and> hd p = CHR ''/''"
  then show "crumb_path (last (getBreadcrumbs p)) = normalize_path p"
    by (simp add: getBreadcrumbs_last normalize_absolute)
  assume ne: "path_parts p \<noteq> []"
  from a obtain s where s: "p = CHR ''/'' # s" by (cases p) auto
  with ne show "join_parts (path_parts p) = normalize_path p"
    by (simp add: normalize_rooted)
qed


theorem breadcrumbs_normalize_keeping_dot_segments_witness:
  "''//a///b//'' \<noteq> [] \<and> hd ''//a///b//'' = CHR ''/'' \<and>
   path_parts ''//a///b//'' = [''a'', ''b''] \<and>
   (1::nat) < length (path_parts ''//a///b//'') \<and>
   crumb_path (tl (getBreadcrumbs ''//a///b//'') ! 1) = ''/a/b'' \<and>
   crumb_path (last (getBreadcrumbs ''//a///b//'')) = normalize_path ''//a///b//'' \<and>
   normalize_path ''//a///b//'' = ''/a/b'' \<and>
   join_parts (path_parts ''//a///b//'') = ''/a/b''"
  using breadcrumbs_normalize_keeping_dot_segments [of "''//a///b//''"]
  by (simp add: path_parts_def normalize_path_def strip_trailing_slash_def join_parts_def)

text \<open>
  Claim C7, as stated, fails: the segments \<open>..\<close> and \<open>.\<close> are not rejected, they become
  breadcrumbs of their own.
\<close>

theorem dot_segments_are_kept_counterexample:
  "getBreadcrumbs ''/a/../b/.'' =
     [Crumb ''My Files'' ''/'', Crumb ''a'' ''/a'', Crumb ''..'' ''/a/..'',
      Crumb ''b'' ''/a/../b'', Crumb ''.'' ''/a/../b/.'']"
  by (simp add: getBreadcrumbs_def path_parts_def)

text \<open>
  \<open>handleBack\<close> of the selector undoes the last step of the recomposition: from the path
  of the last breadcrumb it leads to the path of the one before.
\<close>

lemma lastIndexOf_absent: "c \<notin> set w \<Longrightarrow> lastIndexOf w c = -1"
  by (induction w) (auto simp: Let_def)

lemma lastIndexOf_append: "c \<notin> set w \<Longrightarrow> lastIndexOf (u @ c # w) c = int (length u)"
  by (induction u) (auto simp: Let_def lastIndexOf_absent)

lemma handleBack_join_parts:
  assumes "ps \<noteq> []" "\<forall>w\<in>set ps. CHR ''/'' \<notin> set w \<and> w \<noteq> []"
  shows "handleBack (join_parts ps) =
           Some (if butlast ps = [] then ''/'' else join_parts (butlast ps))"
proof -
  from assms(1) obtain qs w where ps: "ps = qs @ [w]"
    by (metis append_butlast_last_id)
  with assms(2) have w: "CHR ''/'' \<notin> set w" by auto
  have j: "join_parts ps = join_parts qs @ CHR ''/'' # w"
    by (simp add: ps)
  have li: "lastIndexOf (join_parts ps) CHR ''/'' = int (length (join_parts qs))"
    unfolding j using w by (rule lastIndexOf_append)
  have tk: "take (length (join_parts qs)) (join_parts ps) = join_parts qs"
    unfolding j by simp
  have ns: "join_parts ps \<noteq> ''/''"
    using join_parts_last(2) [OF assms] .
  have "handleBack (join_parts ps) = Some (js_or (Some (join_parts qs)) ''/'')"
    using ns by (simp add: handleBack_def li tk)
  moreover have "join_parts qs = [] \<longleftrightarrow> qs = []"
    by (cases qs) auto
  ultimately show ?thesis
    by (simp add: ps)
qed

lemma handleBack_breadcrumbs:
  assumes "path_parts p \<noteq> []"
  shows "handleBack (crumb_path (last (getBreadcrumbs p))) =
           Some (crumb_path (last (butlast (getBreadcrumbs p))))"
proof -
  let ?ps = "path_parts p"
  have free: "\<forall>w\<in>set ?ps. CHR ''/'' \<notin> set w \<and> w \<noteq> []"
    using path_parts_free by blast
  from assms have np: "p \<noteq> ''/''" by auto
  have ne: "push_parts [] ?ps \<noteq> []"
    using assms push_parts_length [of "[]" ?ps] by auto
  have l: "crumb_path (last (getBreadcrumbs p)) = join_parts ?ps"
    using np ne assms by (simp add: getBreadcrumbs_def push_parts_last)
  have nn: "push_parts acc ps = [] \<longleftrightarrow> ps = []" for acc ps
    using push_parts_length [of acc ps] by auto
  have bl: "butlast (push_parts acc ps) = push_parts acc (butlast ps)" for acc ps
    by (induction ps arbitrary: acc) (auto simp: nn)
  have "crumb_path (last (butlast (getBreadcrumbs p))) =
          (if butlast ?ps = [] then ''/'' else join_parts (butlast ?ps))"
  proof (cases "butlast ?ps = []")
    case True
    then show ?thesis
      using np ne by (simp add: getBreadcrumbs_def bl)
  next
    case False
    then have "push_parts [] (butlast ?ps) \<noteq> []"
      by (simp add: nn)
    with False show ?thesis
      using np ne by (simp add: getBreadcrumbs_def bl push_parts_last)
  qed
  with l handleBack_join_parts [OF assms free] show ?thesis
    by simp
qed

section \<open>The displayed list: folders first, then by key\<close>

lemma set_insert_by [simp]: "set (insert_by cmp x ys) = insert x (set ys)"
  by (induction ys) auto

lemma set_js_sort [simp]: "set (js_sort cmp xs) = set xs"
  by (induction xs) (auto simp: js_sort_def)














section \<open>The size aggregate counts every covered file once\<close>

lemma lookup_entry_SomeD:
  "lookup_entry store owner i = Some e \<Longrightarrow> e \<in> set store \<and> entry_id e = i \<and> owner_id e = owner"
  by (auto simp: lookup_entry_def find_Some_iff)

lemma lookup_entry_unique:
  assumes "distinct (map entry_id store)"
    and "e \<in> set store" "owner_id e = owner"
  shows "lookup_entry store owner (entry_id e) = Some e"
proof -
  have "\<exists>x\<in>set store. entry_id x = entry_id e \<and> owner_id x = owner"
    using assms(2,3) by blast
  then obtain e' where e': "lookup_entry store owner (entry_id e) = Some e'"
    unfolding lookup_entry_def by (cases "find (\<lambda>x. entry_id x = entry_id e \<and> owner_id x = owner) store")
      (auto simp: find_None_iff)
  then have "e' \<in> set store" "entry_id e' = entry_id e"
    by (auto dest: lookup_entry_SomeD)
  with assms(1,2) have "e' = e"
    by (meson distinct_map inj_onD)
  with e' show ?thesis by simp
qed

lemma lookup_entry_exists:
  assumes "e \<in> set store" "owner_id e = owner"
  shows "resolves store owner (entry_id e)"
  using assms unfolding resolves_def lookup_entry_def
  by (auto simp: find_None_iff)

lemma children_of_iff:
  "c \<in> set (children_of store owner p) \<longleftrightarrow>
     (\<exists>ec\<in>set store. owner_id ec = owner \<and> parent_id ec = Some p \<and> entry_id ec = c)"
  by (auto simp: children_of_def)

lemma child_rel_resolves: "(p, c) \<in> child_rel store owner \<Longrightarrow> resolves store owner c"
  by (auto simp: child_rel_def intro: lookup_entry_exists)

lemma child_rel_folder:
  assumes "distinct (map entry_id store)" "(p, c) \<in> child_rel store owner"
  shows "\<exists>e. lookup_entry store owner p = Some e \<and> kind e = Folder"
  using assms by (auto simp: child_rel_def dest: lookup_entry_unique)

lemma children_in_child_rel:
  assumes "lookup_entry store owner i = Some e" "kind e = Folder"
    and "c \<in> set (children_of store owner i)"
  shows "(i, c) \<in> child_rel store owner"
proof -
  from assms(1) have "e \<in> set store" "entry_id e = i" "owner_id e = owner"
    by (auto dest: lookup_entry_SomeD)
  moreover from assms(3) obtain ec where "ec \<in> set store" "owner_id ec = owner"
    "parent_id ec = Some i" "entry_id ec = c"
    by (auto simp: children_of_iff)
  ultimately show ?thesis
    using assms(2) unfolding child_rel_def by blast
qed

lemma child_rel_children:
  "(p, c) \<in> child_rel store owner \<Longrightarrow> c \<in> set (children_of store owner p)"
  by (auto simp: child_rel_def children_of_iff)

lemma kind_not_File: "kind e \<noteq> File \<Longrightarrow> kind e = Folder"
  by (cases "kind e") auto

lemma walk_Nil: "walk store owner [] visited acc = (visited, acc)"
  by (simp add: walk.simps)

lemma walk_visited:
  "i \<in> set visited \<Longrightarrow>
     walk store owner (i # stack) visited acc = walk store owner stack visited acc"
  by (simp add: walk.simps)

lemma walk_unresolved:
  "i \<notin> set visited \<Longrightarrow> lookup_entry store owner i = None \<Longrightarrow>
     walk store owner (i # stack) visited acc = walk store owner stack visited acc"
  by (simp add: walk.simps)

lemma walk_file:
  "i \<notin> set visited \<Longrightarrow> lookup_entry store owner i = Some e \<Longrightarrow> kind e = File \<Longrightarrow>
     walk store owner (i # stack) visited acc =
       walk store owner stack (i # visited) (count_entry e acc)"
  by (simp add: walk.simps)

lemma walk_folder:
  "i \<notin> set visited \<Longrightarrow> lookup_entry store owner i = Some e \<Longrightarrow> kind e = Folder \<Longrightarrow>
     walk store owner (i # stack) visited acc =
       walk store owner (children_of store owner i @ stack) (i # visited) (count_entry e acc)"
  by (simp add: walk.simps)

lemma walk_cases_induct [case_names Nil Visited Unresolved File Folder]:
  assumes "\<And>visited acc. P [] visited acc"
    and "\<And>i stack visited acc. i \<in> set visited \<Longrightarrow> P stack visited acc \<Longrightarrow> P (i # stack) visited acc"
    and "\<And>i stack visited acc. i \<notin> set visited \<Longrightarrow> lookup_entry store owner i = None \<Longrightarrow>
           P stack visited acc \<Longrightarrow> P (i # stack) visited acc"
    and "\<And>i stack visited acc e. i \<notin> set visited \<Longrightarrow> lookup_entry store owner i = Some e \<Longrightarrow>
           kind e = File \<Longrightarrow> P stack (i # visited) (count_entry e acc) \<Longrightarrow>
           P (i # stack) visited acc"
    and "\<And>i stack visited acc e. i \<notin> set visited \<Longrightarrow> lookup_entry store owner i = Some e \<Longrightarrow>
           kind e = Folder \<Longrightarrow>
           P (children_of store owner i @ stack) (i # visited) (count_entry e acc) \<Longrightarrow>
           P (i # stack) visited acc"
  shows "P stack visited acc"
  using assms
proof (induction store owner stack visited acc rule: walk.induct)
  case (1 store owner visited acc)
  show ?case by (rule "1.prems"(1))
next
  case (2 store owner i stack visited acc)
  note step = "2.prems"
  show ?case
  proof (cases "i \<in> set visited")
    case True
    then have "P stack visited acc"
      by (rule "2.IH"(1)) (fact step)+
    with True show ?thesis by (rule step(2))
  next
    case nv: False
    show ?thesis
    proof (cases "lookup_entry store owner i")
      case None
      with nv have "P stack visited acc"
        by (rule "2.IH"(2)) (fact step)+
      with nv None show ?thesis by (rule step(3))
    next
      case (Some e)
      show ?thesis
      proof (cases "kind e = File")
        case True
        with nv Some have "P stack (i # visited) (count_entry e acc)"
          by (rule "2.IH"(3)) (fact step)+
        with nv Some True show ?thesis by (rule step(4))
      next
        case False
        with nv Some have "P (children_of store owner i @ stack) (i # visited) (count_entry e acc)"
          by (rule "2.IH"(4)) (fact step)+
        moreover from False have "kind e = Folder" by (rule kind_not_File)
        ultimately show ?thesis using nv Some by (intro step(5))
      qed
    qed
  qed
qed

lemma walk_mono: "set visited \<subseteq> set (fst (walk store owner stack visited acc))"
  by (induction stack visited acc rule: walk_cases_induct [of _ store owner])
     (auto simp: walk_Nil walk_visited walk_unresolved walk_file walk_folder)

lemma walk_distinct:
  "distinct visited \<Longrightarrow> distinct (fst (walk store owner stack visited acc))"
  by (induction stack visited acc rule: walk_cases_induct [of _ store owner])
     (auto simp: walk_Nil walk_visited walk_unresolved walk_file walk_folder)

lemma walk_tally:
  "acc = tally store owner visited \<Longrightarrow>
     snd (walk store owner stack visited acc) =
       tally store owner (fst (walk store owner stack visited acc))"
  by (induction stack visited acc rule: walk_cases_induct [of _ store owner])
     (auto simp: walk_Nil walk_visited walk_unresolved walk_file walk_folder)

lemma walk_covers_stack:
  "i \<in> set stack \<Longrightarrow> resolves store owner i \<Longrightarrow>
     i \<in> set (fst (walk store owner stack visited acc))"
proof (induction stack visited acc rule: walk_cases_induct [of _ store owner])
  case (Nil visited acc)
  then show ?case by simp
next
  case (Visited j stack visited acc)
  then show ?case
    using walk_mono [of visited store owner stack acc] by (auto simp: walk_visited)
next
  case (Unresolved j stack visited acc)
  then show ?case
    by (auto simp: walk_unresolved resolves_def)
next
  case (File j stack visited acc e)
  then show ?case
    using walk_mono [of "j # visited" store owner stack "count_entry e acc"]
    by (auto simp: walk_file)
next
  case (Folder j stack visited acc e)
  then show ?case
    using walk_mono [of "j # visited" store owner "children_of store owner j @ stack"
        "count_entry e acc"]
    by (auto simp: walk_folder)
qed

lemma walk_sound:
  "set (fst (walk store owner stack visited acc)) \<subseteq>
     set visited \<union> covered store owner (set stack)"
proof (induction stack visited acc rule: walk_cases_induct [of _ store owner])
  case (Nil visited acc)
  show ?case by (simp add: walk_Nil)
next
  case (Visited j stack visited acc)
  then show ?case
    by (auto simp: walk_visited covered_def)
next
  case (Unresolved j stack visited acc)
  then show ?case
    by (auto simp: walk_unresolved covered_def)
next
  case (File j stack visited acc e)
  have "j \<in> covered store owner (set (j # stack))"
    using File(2) by (auto simp: covered_def resolves_def)
  moreover have "covered store owner (set stack) \<subseteq> covered store owner (set (j # stack))"
    by (auto simp: covered_def)
  ultimately show ?case
    using File(4) by (auto simp: walk_file File(1-3))
next
  case (Folder j stack visited acc e)
  have j: "j \<in> covered store owner (set (j # stack))"
    using Folder(2) by (auto simp: covered_def resolves_def)
  have "covered store owner (set (children_of store owner j @ stack)) \<subseteq>
          covered store owner (set (j # stack))"
  proof
    fix x assume "x \<in> covered store owner (set (children_of store owner j @ stack))"
    then obtain s where s: "s \<in> set (children_of store owner j) \<union> set stack"
      "resolves store owner s" "(s, x) \<in> (child_rel store owner)\<^sup>*"
      by (auto simp: covered_def)
    show "x \<in> covered store owner (set (j # stack))"
    proof (cases "s \<in> set stack")
      case True
      with s show ?thesis by (auto simp: covered_def)
    next
      case False
      with s(1) have "(j, s) \<in> child_rel store owner"
        using children_in_child_rel [OF Folder(2,3)] by auto
      then have "(j, x) \<in> (child_rel store owner)\<^sup>*"
        using s(3) by (rule converse_rtrancl_into_rtrancl)
      then show ?thesis
        using Folder(2) by (auto simp: covered_def resolves_def)
    qed
  qed
  with j show ?case
    using Folder(4) by (auto simp: walk_folder Folder(1-3))
qed


lemma walk_closed:
  assumes d: "distinct (map entry_id store)"
  shows "(\<And>p c. (p, c) \<in> child_rel store owner \<Longrightarrow> p \<in> set visited \<Longrightarrow>
            c \<in> set visited \<union> set stack) \<Longrightarrow>
         (p, c) \<in> child_rel store owner \<Longrightarrow>
         p \<in> set (fst (walk store owner stack visited acc)) \<Longrightarrow>
         c \<in> set (fst (walk store owner stack visited acc))"
proof (induction stack visited acc rule: walk_cases_induct [of _ store owner])
  case (Nil visited acc)
  then show ?case by (auto simp: walk_Nil)
next
  case (Visited j stack visited acc)
  have "c' \<in> set visited \<union> set stack"
    if "(p', c') \<in> child_rel store owner" "p' \<in> set visited" for p' c'
    using Visited.prems(1) [OF that] Visited.hyps by auto
  with Visited.IH Visited.prems(2,3) show ?case
    by (simp add: walk_visited Visited.hyps)
next
  case (Unresolved j stack visited acc)
  have "c' \<in> set visited \<union> set stack"
    if "(p', c') \<in> child_rel store owner" "p' \<in> set visited" for p' c'
  proof -
    from that(1) have "resolves store owner c'" by (rule child_rel_resolves)
    with Unresolved.hyps have "c' \<noteq> j" by (auto simp: resolves_def)
    with Unresolved.prems(1) [OF that] show ?thesis by auto
  qed
  with Unresolved.IH Unresolved.prems(2,3) show ?case
    by (simp add: walk_unresolved Unresolved.hyps)
next
  case (File j stack visited acc e)
  have "c' \<in> set (j # visited) \<union> set stack"
    if "(p', c') \<in> child_rel store owner" "p' \<in> set (j # visited)" for p' c'
  proof -
    from child_rel_folder [OF d that(1)] File.hyps have "p' \<noteq> j" by auto
    with that(2) have "p' \<in> set visited" by simp
    from File.prems(1) [OF that(1) this] show ?thesis by auto
  qed
  with File.IH File.prems(2,3) show ?case
    by (simp add: walk_file File.hyps)
next
  case (Folder j stack visited acc e)
  have "c' \<in> set (j # visited) \<union> set (children_of store owner j @ stack)"
    if "(p', c') \<in> child_rel store owner" "p' \<in> set (j # visited)" for p' c'
  proof (cases "p' = j")
    case True
    with that(1) show ?thesis by (auto dest: child_rel_children)
  next
    case False
    with that(2) have "p' \<in> set visited" by simp
    from Folder.prems(1) [OF that(1) this] show ?thesis by auto
  qed
  with Folder.IH Folder.prems(2,3) show ?case
    by (simp add: walk_folder Folder.hyps)
qed

lemma walk_visits_covered:
  assumes d: "distinct (map entry_id store)"
  shows "set (fst (walk store owner sel [] acc)) = covered store owner (set sel)"
proof
  show "set (fst (walk store owner sel [] acc)) \<subseteq> covered store owner (set sel)"
    using walk_sound [of store owner sel "[]" acc] by simp
  show "covered store owner (set sel) \<subseteq> set (fst (walk store owner sel [] acc))"
  proof
    fix x assume "x \<in> covered store owner (set sel)"
    then obtain s where s: "s \<in> set sel" "resolves store owner s"
      and sx: "(s, x) \<in> (child_rel store owner)\<^sup>*"
      by (auto simp: covered_def)
    from sx show "x \<in> set (fst (walk store owner sel [] acc))"
    proof (induction rule: rtrancl_induct)
      case base
      from s show ?case by (rule walk_covers_stack)
    next
      case (step y z)
      show ?case
        by (rule walk_closed [OF d _ step(2) step(3)]) simp
    qed
  qed
qed


lemma tally_counts_conj:
  "distinct visited \<Longrightarrow>
     totalBytes (tally store owner visited) =
       (\<Sum>i\<in>{i \<in> set visited. kind_of store owner i = Some File}. size_of store owner i) \<and>
     fileCount (tally store owner visited) =
       card {i \<in> set visited. kind_of store owner i = Some File} \<and>
     folderCount (tally store owner visited) =
       card {i \<in> set visited. kind_of store owner i = Some Folder}"
proof (induction visited)
  case Nil
  show ?case by simp
next
  case (Cons i visited)
  let ?F = "{j \<in> set visited. kind_of store owner j = Some File}"
  let ?D = "{j \<in> set visited. kind_of store owner j = Some Folder}"
  from Cons.prems have dv: "distinct visited" and ni: "i \<notin> set visited"
    by simp_all
  note ih = Cons.IH [OF dv]
  have fin: "finite ?F" "finite ?D" by simp_all
  have notin: "i \<notin> ?F" "i \<notin> ?D" using ni by simp_all
  show ?case
  proof (cases "lookup_entry store owner i")
    case None
    then have k: "kind_of store owner i = None" by (simp add: kind_of_def)
    have "{j \<in> set (i # visited). kind_of store owner j = Some File} = ?F"
      "{j \<in> set (i # visited). kind_of store owner j = Some Folder} = ?D"
      using k by auto
    with ih None show ?thesis by simp
  next
    case (Some e)
    show ?thesis
    proof (cases "kind e = File")
      case True
      with Some have k: "kind_of store owner i = Some File" by (simp add: kind_of_def)
      have sets: "{j \<in> set (i # visited). kind_of store owner j = Some File} = insert i ?F"
        "{j \<in> set (i # visited). kind_of store owner j = Some Folder} = ?D"
        using k by auto
      have sz: "size_of store owner i = entry_size e" using Some by (simp add: size_of_def)
      show ?thesis
        unfolding sets using ih fin notin Some True sz
        by (simp add: count_entry_def)
    next
      case False
      then have fo: "kind e = Folder" by (rule kind_not_File)
      with Some have k: "kind_of store owner i = Some Folder" by (simp add: kind_of_def)
      have sets: "{j \<in> set (i # visited). kind_of store owner j = Some File} = ?F"
        "{j \<in> set (i # visited). kind_of store owner j = Some Folder} = insert i ?D"
        using k by auto
      show ?thesis
        unfolding sets using ih fin notin Some False
        by (simp add: count_entry_def)
    qed
  qed
qed

lemma tally_counts:
  assumes "distinct visited"
  shows "totalBytes (tally store owner visited) =
           (\<Sum>i\<in>{i \<in> set visited. kind_of store owner i = Some File}. size_of store owner i)"
    and "fileCount (tally store owner visited) =
           card {i \<in> set visited. kind_of store owner i = Some File}"
    and "folderCount (tally store owner visited) =
           card {i \<in> set visited. kind_of store owner i = Some Folder}"
  using tally_counts_conj [OF assms, of store owner] by simp_all

lemma covered_absorbs:
  assumes "X \<subseteq> covered store owner S"
  shows "covered store owner (S \<union> X) = covered store owner S"
proof
  show "covered store owner S \<subseteq> covered store owner (S \<union> X)"
    by (auto simp: covered_def)
  show "covered store owner (S \<union> X) \<subseteq> covered store owner S"
  proof
    fix y assume "y \<in> covered store owner (S \<union> X)"
    then obtain s where s: "s \<in> S \<union> X" "resolves store owner s"
      "(s, y) \<in> (child_rel store owner)\<^sup>*"
      by (auto simp: covered_def)
    show "y \<in> covered store owner S"
    proof (cases "s \<in> S")
      case True
      with s show ?thesis by (auto simp: covered_def)
    next
      case False
      with s(1) assms have "s \<in> covered store owner S" by auto
      then obtain r where "r \<in> S" "resolves store owner r" "(r, s) \<in> (child_rel store owner)\<^sup>*"
        by (auto simp: covered_def)
      with s(3) show ?thesis
        by (auto simp: covered_def intro: rtrancl_trans)
    qed
  qed
qed

lemma aggregate_tally:
  "aggregate store owner sel =
     tally store owner
       (fst (walk store owner sel [] \<lparr>totalBytes = 0, fileCount = 0, folderCount = 0\<rparr>))"
  unfolding aggregate_def by (rule walk_tally) simp

text \<open>
  Claim C2. For every selection of entry ids, overlapping or not, the aggregate counts
  each file below the selection exactly once: the total is the sum of the sizes over the
  set of covered file ids, the file and folder counts are the sizes of the sets of
  covered file and folder ids, and adding to a selection ids that it covers already
  (a child next to its own folder) changes nothing. The table is taken to keep entry ids
  unique, as the data model demands.
\<close>

theorem aggregate_counts_each_file_once:
  assumes d: "distinct (map entry_id store)"
  shows "totalBytes (aggregate store owner sel) =
           (\<Sum>i\<in>{i \<in> covered store owner (set sel). kind_of store owner i = Some File}.
              size_of store owner i) \<and>
         fileCount (aggregate store owner sel) =
           card {i \<in> covered store owner (set sel). kind_of store owner i = Some File} \<and>
         folderCount (aggregate store owner sel) =
           card {i \<in> covered store owner (set sel). kind_of store owner i = Some Folder} \<and>
         (set extra \<subseteq> covered store owner (set sel) \<longrightarrow>
            aggregate store owner (sel @ extra) = aggregate store owner sel)"
proof -
  let ?z = "\<lparr>totalBytes = 0, fileCount = 0, folderCount = 0\<rparr>"
  have counts:
    "totalBytes (aggregate store owner xs) =
       (\<Sum>i\<in>{i \<in> covered store owner (set xs). kind_of store owner i = Some File}.
          size_of store owner i)"
    "fileCount (aggregate store owner xs) =
       card {i \<in> covered store owner (set xs). kind_of store owner i = Some File}"
    "folderCount (aggregate store owner xs) =
       card {i \<in> covered store owner (set xs). kind_of store owner i = Some Folder}" for xs
  proof -
    let ?v = "fst (walk store owner xs [] ?z)"
    have dv: "distinct ?v" by (rule walk_distinct) simp
    have sv: "set ?v = covered store owner (set xs)" by (rule walk_visits_covered [OF d])
    show "totalBytes (aggregate store owner xs) =
       (\<Sum>i\<in>{i \<in> covered store owner (set xs). kind_of store owner i = Some File}.
          size_of store owner i)"
      using tally_counts(1) [OF dv, of store owner] by (simp add: aggregate_tally sv)
    show "fileCount (aggregate store owner xs) =
       card {i \<in> covered store owner (set xs). kind_of store owner i = Some File}"
      using tally_counts(2) [OF dv, of store owner] by (simp add: aggregate_tally sv)
    show "folderCount (aggregate store owner xs) =
       card {i \<in> covered store owner (set xs). kind_of store owner i = Some Folder}"
      using tally_counts(3) [OF dv, of store owner] by (simp add: aggregate_tally sv)
  qed
  have "aggregate store owner (sel @ extra) = aggregate store owner sel"
    if "set extra \<subseteq> covered store owner (set sel)"
  proof -
    have "covered store owner (set (sel @ extra)) = covered store owner (set sel)"
      using covered_absorbs [OF that] by simp
    then show ?thesis
      by (intro totals.equality) (simp_all add: counts)
  qed
  with counts [of sel] show ?thesis
    by blast
qed

theorem aggregate_counts_each_file_once_witness:
  "distinct (map entry_id example_store) \<and>
   aggregate example_store 7 [1] = \<lparr>totalBytes = 100, fileCount = 1, folderCount = 1\<rparr> \<and>
   aggregate example_store 7 [1, 2] = \<lparr>totalBytes = 100, fileCount = 1, folderCount = 1\<rparr> \<and>
   card {i \<in> covered example_store 7 (set [1, 2]). kind_of example_store 7 i = Some File} = 1 \<and>
   (\<Sum>i\<in>{i \<in> covered example_store 7 (set [1, 2]). kind_of example_store 7 i = Some File}.
      size_of example_store 7 i) = 100"
proof -
  have d: "distinct (map entry_id example_store)"
    by (simp add: example_store_def)
  have a1: "aggregate example_store 7 [1] = \<lparr>totalBytes = 100, fileCount = 1, folderCount = 1\<rparr>"
    by code_simp
  have a2: "aggregate example_store 7 [1, 2] = \<lparr>totalBytes = 100, fileCount = 1, folderCount = 1\<rparr>"
    by code_simp
  from aggregate_counts_each_file_once [OF d, of 7 "[1, 2]" "[]"] d a1 a2
  show ?thesis
    by simp
qed


end
